theory Spec2Isabelle
  imports Complex_Main "HOL-Library.Product_Lexorder"
begin

section \<open>Python list slicing\<close>

text \<open>
  \<^verbatim>\<open>xs[i:]\<close> for a Python int \<open>i\<close>: a negative index counts from the end of the
  list, and an index outside the list is clipped (a slice never raises).
\<close>

definition py_from :: "'a list \<Rightarrow> int \<Rightarrow> 'a list" where
  "py_from xs i =
     (if 0 \<le> i then drop (nat i) xs else drop (nat (int (length xs) + i)) xs)"

text \<open>\<^verbatim>\<open>xs[:n]\<close>, same clipping.\<close>

definition py_upto :: "'a list \<Rightarrow> int \<Rightarrow> 'a list" where
  "py_upto xs n =
     (if 0 \<le> n then take (nat n) xs else take (nat (int (length xs) + n)) xs)"

text \<open>\<^verbatim>\<open>xs[i:j]\<close> for non-negative \<open>i\<close> (the only use in the sources has \<open>i = 0\<close>).\<close>

definition py_slice :: "'a list \<Rightarrow> int \<Rightarrow> int \<Rightarrow> 'a list" where
  "py_slice xs i j = py_from (py_upto xs j) i"

section \<open>bot2.0.py and bot3.0.py: the cycle queue\<close>

text \<open>
  \<^verbatim>\<open>pick_next_batch\<close> reads \<^verbatim>\<open>y = int(cfg.get("picks_y", ...))\<close> and then
  \<^verbatim>\<open>if y < 1: y = 1\<close>.
\<close>

definition coerce_y :: "int \<Rightarrow> int" where
  "coerce_y y = (if y < 1 then 1 else y)"

text \<open>
  \<^verbatim>\<open>repair_cycle_with_current_a\<close>: the part of the stored queue from the stored
  index on, without the ids that left role A.
\<close>

definition repair_cycle_with_current_a :: "int list \<Rightarrow> int \<Rightarrow> int list \<Rightarrow> int list \<times> int" where
  "repair_cycle_with_current_a current_queue current_index a_ids_now =
     (let remaining = py_from current_queue current_index;
          remaining = filter (\<lambda>uid. uid \<in> set a_ids_now) remaining
      in (remaining, 0))"

text \<open>
  The selection of \<^verbatim>\<open>pick_next_batch\<close> (the same text in bot2.0.py and bot3.0.py), from
  the reading of \<^verbatim>\<open>picks_y\<close> to the update of the stored cycle. The two calls of
  \<^verbatim>\<open>shuffle_cycle_queue(members_a)\<close> are the two parameters \<open>newq\<close> and
  \<open>new_cycle_ids\<close>: what \<^verbatim>\<open>random.shuffle\<close> returned, some permutation of
  \<open>a_ids_now\<close>. The result is \<open>(selected_ids, queue, index)\<close>.
\<close>

definition select_ids ::
  "int \<Rightarrow> int list \<Rightarrow> int list \<Rightarrow> int list \<Rightarrow> int list \<Rightarrow> int \<Rightarrow> int list \<times> int list \<times> int" where
  "select_ids picks_y a_ids_now newq new_cycle_ids queue0 index0 =
     (let y = coerce_y picks_y;
          leftovers = fst (repair_cycle_with_current_a queue0 index0 a_ids_now);
          queue = (if leftovers = [] then newq else leftovers);
          index = 0;
          remaining = int (length queue) - index
      in if remaining \<ge> y
         then (py_slice queue index (index + y), queue, index + y)
         else (let z_take = py_from queue index;
                   needed = y - int (length z_take);
                   topup = py_upto new_cycle_ids needed
               in (z_take @ topup, py_from new_cycle_ids needed, 0)))"

section \<open>bot3.1.py: the cycle pool\<close>

text \<open>\<^verbatim>\<open>y = max(1, int(cfg.picks_number))\<close> in \<^verbatim>\<open>perform_run\<close>.\<close>

definition picks_number_y :: "int \<Rightarrow> int" where
  "picks_number_y picks_number = max 1 picks_number"

text \<open>
  The selection of \<^verbatim>\<open>perform_run\<close>, from \<^verbatim>\<open>y = max(1, ...)\<close> to the update of
  \<^verbatim>\<open>st.current_cycle_pool\<close>. \<open>members_with_a\<close> are the ids of the members holding
  role A; \<open>shuffled\<close> is what \<^verbatim>\<open>random.shuffle(pool)\<close> left in \<open>pool\<close> and
  \<open>new_cycle\<close> what \<^verbatim>\<open>random.shuffle(new_cycle)\<close> left in \<open>new_cycle\<close>. The result
  is \<open>(picks, pool)\<close>.
\<close>

definition select_picks ::
  "int \<Rightarrow> int list \<Rightarrow> int list \<Rightarrow> int list \<Rightarrow> int list \<Rightarrow> int list \<times> int list" where
  "select_picks picks_number members_with_a shuffled new_cycle current_cycle_pool =
     (let y = picks_number_y picks_number;
          pool = filter (\<lambda>uid. uid \<in> set members_with_a) current_cycle_pool;
          pool = (if pool = [] then shuffled else pool);
          take_n = min y (int (length pool));
          picks = py_upto pool take_n;
          pool = py_from pool take_n;
          need = y - int (length picks)
      in if need > 0
         then (let new_cycle = filter (\<lambda>uid. uid \<notin> set picks) new_cycle
               in if int (length new_cycle) \<ge> need
                  then (picks @ py_upto new_cycle need, py_from new_cycle need)
                  else (picks @ new_cycle, []))
         else (picks, pool))"

section \<open>bot3.0.py: stored data, duration statistics and the run\<close>

text \<open>
  One entry of \<^verbatim>\<open>data["stats"]\<close>:
  \<^verbatim>\<open>{"seconds_total": int, "hold_started_ts": int|None}\<close>.
\<close>

record user_stat =
  seconds_total :: int
  hold_started_ts :: "int option"

text \<open>
  The part of \<^verbatim>\<open>default_data()\<close> that a run reads or writes. The keys of
  \<^verbatim>\<open>stats\<close> are \<^verbatim>\<open>str(uid)\<close>; the model keeps the id itself.
\<close>

record data =
  picks_y :: int
  current_holders :: "int list"
  stats :: "int \<Rightarrow> user_stat option"
  cycle_queue :: "int list"
  cycle_index :: int

definition default_data :: "int \<Rightarrow> data" where
  "default_data default_picks_y =
     \<lparr>picks_y = default_picks_y, current_holders = [], stats = Map.empty,
      cycle_queue = [], cycle_index = 0\<rparr>"

definition ensure_user_stat :: "int \<Rightarrow> (int \<Rightarrow> user_stat option) \<Rightarrow> (int \<Rightarrow> user_stat option)" where
  "ensure_user_stat uid st =
     (if st uid = None then st(uid \<mapsto> \<lparr>seconds_total = 0, hold_started_ts = None\<rparr>) else st)"

text \<open>
  The test \<^verbatim>\<open>stats.get("hold_started_ts")\<close> is Python truthiness: \<^verbatim>\<open>None\<close> and
  \<^verbatim>\<open>0\<close> are both false.
\<close>

definition truthy_ts :: "int option \<Rightarrow> bool" where
  "truthy_ts t = (case t of None \<Rightarrow> False | Some s \<Rightarrow> s \<noteq> 0)"

text \<open>
  The body of the loop of \<^verbatim>\<open>remove_role_b_from_current_holders\<close> (bot3.0.py) for one
  \<open>uid\<close>, as far as the stored data goes: the removal of the role itself is a call to
  Discord whose failure is caught and logged and changes nothing here.
\<close>

definition finalize_stat :: "int \<Rightarrow> int \<Rightarrow> (int \<Rightarrow> user_stat option) \<Rightarrow> (int \<Rightarrow> user_stat option)" where
  "finalize_stat now uid st0 =
     (let st = ensure_user_stat uid st0
      in case st uid of
           None \<Rightarrow> st
         | Some r \<Rightarrow>
             if truthy_ts (hold_started_ts r)
             then (let dur = now - the (hold_started_ts r)
                   in st(uid \<mapsto> r\<lparr>seconds_total := seconds_total r + max 0 dur,
                                   hold_started_ts := None\<rparr>))
             else st)"

fun finalize_all :: "int \<Rightarrow> int list \<Rightarrow> (int \<Rightarrow> user_stat option) \<Rightarrow> (int \<Rightarrow> user_stat option)" where
  "finalize_all now [] st = st"
| "finalize_all now (uid # uids) st = finalize_all now uids (finalize_stat now uid st)"

definition remove_role_b_from_current_holders :: "int \<Rightarrow> data \<Rightarrow> data" where
  "remove_role_b_from_current_holders now d =
     (let current_ids = current_holders d
      in if current_ids = [] then d
         else d\<lparr>stats := finalize_all now current_ids (stats d), current_holders := []\<rparr>)"

text \<open>
  The loop that assigns role B in \<^verbatim>\<open>pick_next_batch\<close>: \<open>add_ok m\<close> says that
  \<^verbatim>\<open>m.add_roles\<close> returned; when it raises, the \<^verbatim>\<open>except\<close> branch logs and the
  two statements after the call are skipped.
\<close>

fun assign_all :: "(int \<Rightarrow> bool) \<Rightarrow> int \<Rightarrow> int list \<Rightarrow> (int \<Rightarrow> user_stat option) \<Rightarrow> (int \<Rightarrow> user_stat option)" where
  "assign_all add_ok now_ts [] st = st"
| "assign_all add_ok now_ts (m # ms) st0 =
     (if add_ok m
      then (let st = ensure_user_stat m st0
            in assign_all add_ok now_ts ms
                 (st(m \<mapsto> (the (st m))\<lparr>hold_started_ts := Some now_ts\<rparr>)))
      else assign_all add_ok now_ts ms st0)"

text \<open>
  What one run draws from outside the stored data: the ids of
  \<^verbatim>\<open>eligible_members_with_role_a\<close>, the outcome of each \<^verbatim>\<open>add_roles\<close> call, the
  clock and the two shuffles.
\<close>

record run_env =
  a_ids_now :: "int list"
  add_ok :: "int \<Rightarrow> bool"
  now_remove :: int
  now_pick :: int
  newq :: "int list"
  new_cycle_ids :: "int list"

text \<open>\<^verbatim>\<open>pick_next_batch\<close>: the new stored data and the returned members.\<close>

definition pick_next_batch :: "run_env \<Rightarrow> data \<Rightarrow> data \<times> int list" where
  "pick_next_batch env d =
     (case select_ids (picks_y d) (a_ids_now env) (newq env) (new_cycle_ids env)
             (cycle_queue d) (cycle_index d) of
        (selected_ids, queue, index) \<Rightarrow>
          (let selected_members = filter (\<lambda>uid. uid \<in> set (a_ids_now env)) selected_ids
           in (d\<lparr>cycle_queue := queue, cycle_index := index,
                  stats := assign_all (add_ok env) (now_pick env) selected_members (stats d),
                  current_holders := selected_members\<rparr>,
               selected_members)))"

text \<open>
  \<^verbatim>\<open>run_rotation\<close> once the guild and both roles are resolved (otherwise it returns an
  error text and touches nothing).
\<close>

definition run_rotation :: "run_env \<Rightarrow> data \<Rightarrow> data \<times> int list" where
  "run_rotation env d = pick_next_batch env (remove_role_b_from_current_holders (now_remove env) d)"

text \<open>The total of one row of \<^verbatim>\<open>stats_cmd\<close> (bot3.0.py).\<close>

definition stats_total :: "int \<Rightarrow> user_stat \<Rightarrow> int" where
  "stats_total now r =
     (let total = seconds_total r; start = hold_started_ts r
      in if truthy_ts start then total + max 0 (now - the start) else total)"

section \<open>bot3.1.py: statistics and the run\<close>

text \<open>
  \<^verbatim>\<open>UserStats\<close>. The time stamps of bot3.1.py are Python floats
  (\<^verbatim>\<open>datetime.now().timestamp()\<close>); the model takes them as reals, which is exact on
  the whole-second values used below.
\<close>

record user_stats =
  total_seconds_with_b :: int
  last_assigned_at :: "real option"

definition UserStats :: user_stats where
  "UserStats = \<lparr>total_seconds_with_b = 0, last_assigned_at = None\<rparr>"

text \<open>Python's \<^verbatim>\<open>int(x)\<close> on a float truncates towards zero.\<close>

definition py_int :: "real \<Rightarrow> int" where
  "py_int x = (if 0 \<le> x then \<lfloor>x\<rfloor> else \<lceil>x\<rceil>)"

text \<open>\<^verbatim>\<open>st.stats.get(uid, UserStats())\<close>.\<close>

definition stats_get :: "(int \<Rightarrow> user_stats option) \<Rightarrow> int \<Rightarrow> user_stats" where
  "stats_get st uid = (case st uid of None \<Rightarrow> UserStats | Some us \<Rightarrow> us)"

text \<open>
  The statistics update of the loop over \<^verbatim>\<open>prev_b_holders\<close> in \<^verbatim>\<open>perform_run\<close>,
  for one member.
\<close>

definition update_stats :: "real \<Rightarrow> int \<Rightarrow> (int \<Rightarrow> user_stats option) \<Rightarrow> (int \<Rightarrow> user_stats option)" where
  "update_stats now_ts uid st =
     (let us = stats_get st uid;
          us = (case last_assigned_at us of
                  None \<Rightarrow> us
                | Some since \<Rightarrow>
                    us\<lparr>total_seconds_with_b := total_seconds_with_b us + py_int (now_ts - since),
                       last_assigned_at := None\<rparr>)
      in st(uid \<mapsto> us))"

text \<open>
  The whole loop: the statistics, and \<^verbatim>\<open>removed_mentions\<close> (the members whose
  \<^verbatim>\<open>remove_roles\<close> call returned).
\<close>

fun remove_all ::
  "(int \<Rightarrow> bool) \<Rightarrow> real \<Rightarrow> int list \<Rightarrow> (int \<Rightarrow> user_stats option) \<Rightarrow> (int \<Rightarrow> user_stats option) \<times> int list" where
  "remove_all removed_ok now_ts [] st = (st, [])"
| "remove_all removed_ok now_ts (m # ms) st =
     (case remove_all removed_ok now_ts ms (update_stats now_ts m st) of
        (st', removed) \<Rightarrow> (st', if removed_ok m then m # removed else removed))"

text \<open>
  The loop over \<^verbatim>\<open>picks\<close>: \<open>present uid\<close> says that \<^verbatim>\<open>guild.get_member(uid)\<close>
  is not \<^verbatim>\<open>None\<close>, \<open>granted uid\<close> that \<^verbatim>\<open>add_roles\<close> returned. The result is the
  statistics and \<^verbatim>\<open>assigned_mentions\<close>.
\<close>

fun assign_picks ::
  "(int \<Rightarrow> bool) \<Rightarrow> (int \<Rightarrow> bool) \<Rightarrow> real \<Rightarrow> int list \<Rightarrow> (int \<Rightarrow> user_stats option) \<Rightarrow> (int \<Rightarrow> user_stats option) \<times> int list" where
  "assign_picks present granted now_ts [] st = (st, [])"
| "assign_picks present granted now_ts (uid # uids) st =
     (if \<not> present uid then assign_picks present granted now_ts uids st
      else if granted uid
      then (case assign_picks present granted now_ts uids
                   (st(uid \<mapsto> (stats_get st uid)\<lparr>last_assigned_at := Some now_ts\<rparr>)) of
              (st', assigned) \<Rightarrow> (st', uid # assigned))
      else assign_picks present granted now_ts uids st)"

text \<open>\<^verbatim>\<open>GuildState\<close>, without the permission sets.\<close>

record guild_state =
  current_cycle_pool :: "int list"
  user_stats_of :: "int \<Rightarrow> user_stats option"

text \<open>
  What \<^verbatim>\<open>perform_run\<close> reads from the guild, the clock and the random generator.
\<close>

record guild_env =
  roles_found :: bool
  members_with_a :: "int list"
  prev_b_holders :: "int list"
  is_member :: "int \<Rightarrow> bool"
  remove_ok :: "int \<Rightarrow> bool"
  grant_ok :: "int \<Rightarrow> bool"
  now_ts :: real
  shuffled_pool :: "int list"
  shuffled_new_cycle :: "int list"

text \<open>
  What a run announces: the members granted role B, the members it was removed from, and
  whether the \<^verbatim>\<open>run_insufficient\<close> note is sent (or logged).
\<close>

record run_report =
  assigned_mentions :: "int list"
  removed_mentions :: "int list"
  insufficient :: bool

text \<open>
  \<^verbatim>\<open>perform_run\<close>: \<open>None\<close> is the early return when a role is not found; otherwise
  the new state, the picks and the report.
\<close>

definition perform_run :: "int \<Rightarrow> guild_env \<Rightarrow> guild_state \<Rightarrow> (guild_state \<times> int list \<times> run_report) option" where
  "perform_run picks_number env st =
     (if \<not> roles_found env then None
      else
        (case remove_all (remove_ok env) (now_ts env) (prev_b_holders env) (user_stats_of st) of
           (stats1, removed) \<Rightarrow>
             (case select_picks picks_number (members_with_a env) (shuffled_pool env)
                     (shuffled_new_cycle env) (current_cycle_pool st) of
                (picks, pool) \<Rightarrow>
                  (case assign_picks (is_member env) (grant_ok env) (now_ts env) picks stats1 of
                     (stats2, assigned) \<Rightarrow>
                       Some (\<lparr>current_cycle_pool = pool, user_stats_of = stats2\<rparr>,
                             picks,
                             \<lparr>assigned_mentions = assigned, removed_mentions = removed,
                              insufficient =
                                (int (length (members_with_a env)) < picks_number_y picks_number)\<rparr>)))))"

section \<open>Python's datetime, as far as the schedule code uses it\<close>

text \<open>
  A \<^verbatim>\<open>datetime\<close> in the guild's time zone, as its wall-clock fields. All values the
  schedule code compares carry the same \<^verbatim>\<open>tzinfo\<close>, and Python then compares the
  fields and ignores the zone. The conversion of the result to POSIX seconds
  (\<^verbatim>\<open>int(cand.timestamp())\<close> in bot2.0.py and bot3.0.py) needs the zone's offset table
  and is outside the model: a computed next run is the wall-clock value \<^verbatim>\<open>cand\<close>.
  Years are not bounded (Python stops at 9999).
\<close>

record datetime =
  dt_year :: int
  dt_month :: int
  dt_day :: int
  dt_hour :: int
  dt_minute :: int
  dt_second :: int
  dt_microsecond :: int

datatype py_error = ValueError

definition is_leap :: "int \<Rightarrow> bool" where
  "is_leap y = (y mod 4 = 0 \<and> (y mod 100 \<noteq> 0 \<or> y mod 400 = 0))"

definition days_in_month :: "int \<Rightarrow> int \<Rightarrow> int" where
  "days_in_month y m =
     (if m = 2 then (if is_leap y then 29 else 28)
      else if m = 4 \<or> m = 6 \<or> m = 9 \<or> m = 11 then 30 else 31)"

text \<open>The field checks of the \<^verbatim>\<open>datetime\<close> constructor.\<close>

definition fields_ok :: "datetime \<Rightarrow> bool" where
  "fields_ok t =
     (1 \<le> dt_month t \<and> dt_month t \<le> 12 \<and>
      1 \<le> dt_day t \<and> dt_day t \<le> days_in_month (dt_year t) (dt_month t) \<and>
      0 \<le> dt_hour t \<and> dt_hour t \<le> 23 \<and>
      0 \<le> dt_minute t \<and> dt_minute t \<le> 59 \<and>
      0 \<le> dt_second t \<and> dt_second t \<le> 59 \<and>
      0 \<le> dt_microsecond t \<and> dt_microsecond t \<le> 999999)"

text \<open>
  \<^verbatim>\<open>t.replace(...)\<close> builds a new \<^verbatim>\<open>datetime\<close> from the changed fields and raises
  \<^verbatim>\<open>ValueError\<close> when one is out of range: \<open>replaced t'\<close> where \<open>t'\<close> is \<open>t\<close>
  with the fields changed.
\<close>

definition replaced :: "datetime \<Rightarrow> py_error + datetime" where
  "replaced t = (if fields_ok t then Inr t else Inl ValueError)"

text \<open>Comparison of two values of one zone: the fields, most significant first.\<close>

definition dt_key :: "datetime \<Rightarrow> int \<times> int \<times> int \<times> int \<times> int \<times> int \<times> int" where
  "dt_key t =
     (dt_year t, dt_month t, dt_day t, dt_hour t, dt_minute t, dt_second t, dt_microsecond t)"

definition dt_le :: "datetime \<Rightarrow> datetime \<Rightarrow> bool" where
  "dt_le a b = (dt_key a \<le> dt_key b)"

definition dt_less :: "datetime \<Rightarrow> datetime \<Rightarrow> bool" where
  "dt_less a b = (dt_key a < dt_key b)"

text \<open>
  \<^verbatim>\<open>t + timedelta(days=k)\<close> for \<open>k \<ge> 0\<close> (the sources add 1, 7, 30, a number of days
  between 0 and 7, and \<^verbatim>\<open>max(1, n)\<close>): the calendar day moves on \<open>k\<close> times, the time
  of day stays.
\<close>

definition next_day :: "datetime \<Rightarrow> datetime" where
  "next_day t =
     (if dt_day t < days_in_month (dt_year t) (dt_month t) then t\<lparr>dt_day := dt_day t + 1\<rparr>
      else if dt_month t < 12 then t\<lparr>dt_month := dt_month t + 1, dt_day := 1\<rparr>
      else t\<lparr>dt_year := dt_year t + 1, dt_month := 1, dt_day := 1\<rparr>)"

fun add_days :: "nat \<Rightarrow> datetime \<Rightarrow> datetime" where
  "add_days 0 t = t"
| "add_days (Suc k) t = add_days k (next_day t)"

definition plus_days :: "datetime \<Rightarrow> int \<Rightarrow> datetime" where
  "plus_days t k = add_days (nat k) t"

text \<open>\<^verbatim>\<open>t.weekday()\<close>, Monday 0, from the proleptic Gregorian ordinal as Python computes it.\<close>

definition days_before_year :: "int \<Rightarrow> int" where
  "days_before_year y = (y - 1) * 365 + (y - 1) div 4 - (y - 1) div 100 + (y - 1) div 400"

definition days_before_month :: "int \<Rightarrow> int \<Rightarrow> int" where
  "days_before_month y m = sum_list (map (days_in_month y) [1..m - 1])"

definition toordinal :: "datetime \<Rightarrow> int" where
  "toordinal t = days_before_year (dt_year t) + days_before_month (dt_year t) (dt_month t) + dt_day t"

definition dt_weekday :: "datetime \<Rightarrow> int" where
  "dt_weekday t = (toordinal t + 6) mod 7"

section \<open>bot2.0.py and bot3.0.py: \<^verbatim>\<open>next_run_from_now\<close>\<close>

text \<open>
  \<^verbatim>\<open>cfg["schedule"]\<close>. Each field holds what the \<^verbatim>\<open>s.get(key, default)\<close> of
  \<^verbatim>\<open>next_run_from_now\<close> returns; \<open>sched_time\<close> is the pair that \<^verbatim>\<open>parse_hhmm\<close>
  makes of the \<^verbatim>\<open>"time"\<close> text.
\<close>

record schedule =
  enabled :: bool
  sched_type :: string
  n_days :: int
  weekday :: int
  sched_dom :: int
  sched_time :: "int \<times> int"

text \<open>
  The loop \<^verbatim>\<open>for d in range(28, 32): try: cand = cand.replace(day=min(dom, d))
  except ValueError: continue\<close>.
\<close>

fun fix_day :: "int \<Rightarrow> int list \<Rightarrow> datetime \<Rightarrow> datetime" where
  "fix_day dom_v [] cand = cand"
| "fix_day dom_v (d # ds) cand =
     (case replaced (cand\<lparr>dt_day := min dom_v d\<rparr>) of
        Inl e \<Rightarrow> fix_day dom_v ds cand
      | Inr c \<Rightarrow> fix_day dom_v ds c)"

text \<open>
  The loop \<^verbatim>\<open>while cand <= now: cand += timedelta(days=n)\<close>; \<open>None\<close> stands for a
  loop that does not end.
\<close>

partial_function (option) while_not_after :: "int \<Rightarrow> datetime \<Rightarrow> datetime \<Rightarrow> datetime option" where
  "while_not_after n now cand =
     (if dt_le cand now then while_not_after n now (plus_days cand n) else Some cand)"

declare while_not_after.simps [code]

text \<open>
  \<^verbatim>\<open>next_run_from_now\<close> with the schedule and \<^verbatim>\<open>now\<close> as arguments. \<open>Some (Inl e)\<close>:
  the call raises \<open>e\<close>; \<open>Some (Inr None)\<close>: it returns \<^verbatim>\<open>None\<close>;
  \<open>Some (Inr (Some cand))\<close>: it returns the time stamp of \<open>cand\<close>; \<open>None\<close>: it does
  not return.
\<close>

definition next_run_from_now :: "schedule \<Rightarrow> datetime \<Rightarrow> (py_error + datetime option) option" where
  "next_run_from_now s now =
     (if \<not> enabled s then Some (Inr None)
      else
        (let hh = fst (sched_time s); mm = snd (sched_time s); typ = sched_type s
         in if typ = ''daily'' then
              (case replaced (now\<lparr>dt_hour := hh, dt_minute := mm, dt_second := 0, dt_microsecond := 0\<rparr>) of
                 Inl e \<Rightarrow> Some (Inl e)
               | Inr cand \<Rightarrow>
                   Some (Inr (Some (if dt_le cand now then plus_days cand 1 else cand))))
            else if typ = ''weekly'' then
              (case replaced (now\<lparr>dt_hour := hh, dt_minute := mm, dt_second := 0, dt_microsecond := 0\<rparr>) of
                 Inl e \<Rightarrow> Some (Inl e)
               | Inr cand \<Rightarrow>
                   (let days_ahead = (weekday s - dt_weekday cand) mod 7;
                        days_ahead = (if days_ahead = 0 \<and> dt_le cand now then 7 else days_ahead)
                    in Some (Inr (Some (plus_days cand days_ahead)))))
            else if typ = ''monthly'' then
              (let dom_v = sched_dom s; y = dt_year now; m = dt_month now
               in case replaced (now\<lparr>dt_day := min dom_v 28, dt_hour := hh, dt_minute := mm,
                                     dt_second := 0, dt_microsecond := 0\<rparr>) of
                    Inl e \<Rightarrow> Some (Inl e)
                  | Inr cand0 \<Rightarrow>
                      (let cand = fix_day dom_v [28, 29, 30, 31] cand0
                       in if dt_le cand now then
                            (let y2 = (if m = 12 then y + 1 else y);
                                 m2 = (if m = 12 then 1 else m + 1)
                             in case replaced (cand\<lparr>dt_year := y2, dt_month := m2\<rparr>) of
                                  Inl e \<Rightarrow> Some (Inl e)
                                | Inr cand2 \<Rightarrow>
                                    Some (Inr (Some (fix_day dom_v [28, 29, 30, 31] cand2))))
                          else Some (Inr (Some cand))))
            else if typ = ''every_n_days'' then
              (let n = max 1 (n_days s)
               in case replaced (now\<lparr>dt_hour := hh, dt_minute := mm, dt_second := 0, dt_microsecond := 0\<rparr>) of
                    Inl e \<Rightarrow> Some (Inl e)
                  | Inr cand \<Rightarrow>
                      map_option (\<lambda>c. Inr (Some c)) (while_not_after n now cand))
            else Some (Inr None)))"

section \<open>bot3.1.py: \<^verbatim>\<open>compute_next_run\<close>\<close>

text \<open>\<^verbatim>\<open>ScheduleConfig\<close>.\<close>

record ScheduleConfig =
  mode :: string
  preset :: string
  every_days :: int
  hour :: int
  minute :: int

text \<open>
  \<^verbatim>\<open>compute_next_run\<close> with the schedule and \<^verbatim>\<open>now\<close> as arguments; it returns the
  \<^verbatim>\<open>datetime\<close> itself.
\<close>

definition compute_next_run :: "ScheduleConfig \<Rightarrow> datetime \<Rightarrow> py_error + datetime" where
  "compute_next_run sc now =
     (let hour_v = hour sc; minute_v = minute sc
      in if mode sc = ''preset'' then
           (if preset sc = ''daily'' then
              (case replaced (now\<lparr>dt_hour := hour_v, dt_minute := minute_v, dt_second := 0,
                                  dt_microsecond := 0\<rparr>) of
                 Inl e \<Rightarrow> Inl e
               | Inr target \<Rightarrow> Inr (if dt_le target now then plus_days target 1 else target))
            else if preset sc = ''weekly'' then
              (case replaced (now\<lparr>dt_hour := hour_v, dt_minute := minute_v, dt_second := 0,
                                  dt_microsecond := 0\<rparr>) of
                 Inl e \<Rightarrow> Inl e
               | Inr target \<Rightarrow> Inr (if dt_le target now then plus_days target 7 else target))
            else if preset sc = ''monthly'' then
              (case replaced (now\<lparr>dt_hour := hour_v, dt_minute := minute_v, dt_second := 0,
                                  dt_microsecond := 0\<rparr>) of
                 Inl e \<Rightarrow> Inl e
               | Inr target \<Rightarrow> Inr (if dt_le target now then plus_days target 30 else target))
            else
              (case replaced (now\<lparr>dt_hour := hour_v, dt_minute := minute_v, dt_second := 0,
                                  dt_microsecond := 0\<rparr>) of
                 Inl e \<Rightarrow> Inl e
               | Inr target \<Rightarrow> Inr (if dt_le target now then plus_days target 1 else target)))
         else
           (case replaced (now\<lparr>dt_hour := hour_v, dt_minute := minute_v, dt_second := 0,
                               dt_microsecond := 0\<rparr>) of
              Inl e \<Rightarrow> Inl e
            | Inr target \<Rightarrow>
                Inr (if dt_le target now then plus_days target (max 1 (every_days sc))
                     else target)))"

section \<open>Consecutive runs\<close>

text \<open>
  The value of \<^verbatim>\<open>data["current_holders"]\<close> after each of a series of bot3.0.py runs,
  one environment per run.
\<close>

fun run_many :: "run_env list \<Rightarrow> data \<Rightarrow> int list list" where
  "run_many [] d = []"
| "run_many (env # envs) d =
     (let d' = fst (run_rotation env d) in current_holders d' # run_many envs d')"

text \<open>
  The members granted role B by each of a series of bot3.1.py runs; \<open>None\<close> when a run
  returns early.
\<close>

fun perform_many :: "int \<Rightarrow> guild_env list \<Rightarrow> guild_state \<Rightarrow> int list list option" where
  "perform_many picks_number [] st = Some []"
| "perform_many picks_number (env # envs) st =
     (case perform_run picks_number env st of
        None \<Rightarrow> None
      | Some (st', picks, report) \<Rightarrow>
          map_option (\<lambda>rest. assigned_mentions report # rest) (perform_many picks_number envs st'))"

section \<open>Evaluation rules\<close>

lemmas dt_defs =
  replaced_def fields_ok_def days_in_month_def is_leap_def dt_le_def dt_key_def

lemmas slice_defs = py_from_def py_upto_def py_slice_def

lemmas cycle_defs =
  select_ids_def coerce_y_def repair_cycle_with_current_a_def slice_defs

lemmas run_defs =
  run_rotation_def remove_role_b_from_current_holders_def default_data_def
  pick_next_batch_def cycle_defs

section \<open>The picks number\<close>

text \<open>
  C10. Whatever number of picks is configured, zero and negative numbers included, both
  selections work with a batch size of at least 1: the size is \<open>max 1\<close> of the configured
  number, and a run with a degenerate number selects exactly what a run with 1 selects.
  The selections are total functions, so no configured number makes them fail.
\<close>

theorem picks_coerced_to_at_least_one:
  "1 \<le> coerce_y p \<and> 1 \<le> picks_number_y p
   \<and> coerce_y p = max 1 p \<and> picks_number_y p = max 1 p
   \<and> select_ids p a_ids q1 q2 queue0 index0 = select_ids (max 1 p) a_ids q1 q2 queue0 index0
   \<and> select_picks p members s1 s2 pool0 = select_picks (max 1 p) members s1 s2 pool0"
  by (simp add: coerce_y_def picks_number_y_def select_ids_def select_picks_def max_def)

theorem picks_coerced_to_at_least_one_witness:
  "coerce_y (- 3) = 1 \<and> picks_number_y 0 = 1
   \<and> select_ids (- 3) [1, 2] [2, 1] [1, 2] [] 0 = select_ids 1 [1, 2] [2, 1] [1, 2] [] 0"
  using picks_coerced_to_at_least_one [of "- 3" "[1, 2]" "[2, 1]" "[1, 2]" "[]" 0]
        picks_coerced_to_at_least_one [of 0]
  by simp

section \<open>The top-up of bot2.0.py and bot3.0.py\<close>

text \<open>
  C2. In bot3.0.py (and bot2.0.py) the top-up takes the front of a fresh shuffle of all
  eligible members, without leaving out the carried remainder. Five eligible members,
  two picks per run, the stored cycle as two runs leave it (member 5 left over) and a
  fresh shuffle that starts with 5: the batch is member 5 twice.
\<close>

theorem topup_repeats_carried_member:
  "snd (pick_next_batch
          \<lparr>a_ids_now = [1, 2, 3, 4, 5], add_ok = (\<lambda>uid. True), now_remove = 1000,
           now_pick = 1000, newq = [1, 2, 3, 4, 5], new_cycle_ids = [5, 1, 2, 3, 4]\<rparr>
          \<lparr>picks_y = 2, current_holders = [3, 4], stats = Map.empty,
           cycle_queue = [3, 4, 5], cycle_index = 2\<rparr>) = [5, 5]"
  by (simp add: Let_def run_defs)

text \<open>
  C7. Two eligible members and five picks per run in bot3.0.py (and bot2.0.py), from the
  initial data: the first shuffle is taken whole, the top-up takes the second shuffle
  whole, and the batch has four entries, each member twice. The run returns only this
  list: it has no note for an under-supply.
\<close>

theorem under_supply_batch_of_four:
  "snd (run_rotation
          \<lparr>a_ids_now = [1, 2], add_ok = (\<lambda>uid. True), now_remove = 1000, now_pick = 1000,
           newq = [1, 2], new_cycle_ids = [2, 1]\<rparr>
          (default_data 5)) = [1, 2, 2, 1]"
  by (simp add: Let_def run_defs)

section \<open>Recorded holders and open intervals\<close>

text \<open>
  C4. One eligible member whose \<^verbatim>\<open>add_roles\<close> call raises, in bot3.0.py (and
  bot2.0.py): after the run the member is in \<^verbatim>\<open>current_holders\<close> and has no
  statistics entry at all, so no open interval.
\<close>

theorem failed_grant_recorded_as_holder:
  "(let d = fst (run_rotation
                  \<lparr>a_ids_now = [1], add_ok = (\<lambda>uid. False), now_remove = 1000,
                   now_pick = 1000, newq = [1], new_cycle_ids = [1]\<rparr>
                  (default_data 1))
    in current_holders d = [1] \<and> stats d 1 = None)"
  by (simp add: Let_def run_defs)

section \<open>Closing an interval in bot3.1.py\<close>

text \<open>
  C3. \<^verbatim>\<open>perform_run\<close> of bot3.1.py adds \<^verbatim>\<open>int(now_ts - us.last_assigned_at)\<close>
  with no lower bound. Member 7 holds role B since instant 200 and the run reads the clock
  at 100: the accumulated total goes from 0 to \<open>- 100\<close>.
\<close>

theorem close_adds_negative_interval:
  "(case perform_run 1
          \<lparr>roles_found = True, members_with_a = [7, 8], prev_b_holders = [7],
           is_member = (\<lambda>uid. True), remove_ok = (\<lambda>uid. True), grant_ok = (\<lambda>uid. True),
           now_ts = 100, shuffled_pool = [8, 7], shuffled_new_cycle = [7, 8]\<rparr>
          \<lparr>current_cycle_pool = [8],
           user_stats_of = [7 \<mapsto> \<lparr>total_seconds_with_b = 0, last_assigned_at = Some 200\<rparr>]\<rparr> of
      None \<Rightarrow> False
    | Some (st, picks, report) \<Rightarrow>
        user_stats_of st 7 = Some \<lparr>total_seconds_with_b = - 100, last_assigned_at = None\<rparr>)"
  by (simp add: Let_def perform_run_def select_picks_def picks_number_y_def update_stats_def
      stats_get_def py_int_def slice_defs)

section \<open>The monthly schedule of bot2.0.py and bot3.0.py\<close>

text \<open>
  C5. An enabled monthly schedule for day 31 at 09:00, asked on 31 January 2025 at 10:00:
  the candidate of the current month is 31 January 09:00, which is past, and
  \<^verbatim>\<open>cand.replace(year=y, month=m2)\<close> asks for 31 February before the day is fixed.
  The call raises \<^verbatim>\<open>ValueError\<close>; no next run is computed.
\<close>

theorem monthly_raises_end_of_january:
  "next_run_from_now
     \<lparr>enabled = True, sched_type = ''monthly'', n_days = 3, weekday = 0, sched_dom = 31,
      sched_time = (9, 0)\<rparr>
     \<lparr>dt_year = 2025, dt_month = 1, dt_day = 31, dt_hour = 10, dt_minute = 0, dt_second = 0,
      dt_microsecond = 0\<rparr>
   = Some (Inl ValueError)"
  by (simp add: next_run_from_now_def dt_defs)

text \<open>
  C6. The same schedule asked on 31 March 2025 at 10:00: the target month is April, of 30
  days, and the call raises \<^verbatim>\<open>ValueError\<close> where the 30th of April at 09:00 is
  expected.
\<close>

theorem monthly_raises_into_thirty_day_month:
  "next_run_from_now
     \<lparr>enabled = True, sched_type = ''monthly'', n_days = 3, weekday = 0, sched_dom = 31,
      sched_time = (9, 0)\<rparr>
     \<lparr>dt_year = 2025, dt_month = 3, dt_day = 31, dt_hour = 10, dt_minute = 0, dt_second = 0,
      dt_microsecond = 0\<rparr>
   = Some (Inl ValueError)"
  by (simp add: next_run_from_now_def dt_defs)

section \<open>Disabled schedules and unrecognized kinds\<close>

text \<open>
  C8, as stated, fails on bot3.1.py: a preset that is none of daily, weekly and monthly
  gets the next run of the daily schedule. Asked on 31 January 2025 at 10:00 for 09:00
  the answer is 1 February 09:00, not none.
\<close>

theorem unrecognized_preset_runs_daily:
  "compute_next_run
     \<lparr>mode = ''preset'', preset = ''yearly'', every_days = 7, hour = 9, minute = 0\<rparr>
     \<lparr>dt_year = 2025, dt_month = 1, dt_day = 31, dt_hour = 10, dt_minute = 0, dt_second = 0,
      dt_microsecond = 0\<rparr>
   = Inr \<lparr>dt_year = 2025, dt_month = 2, dt_day = 1, dt_hour = 9, dt_minute = 0, dt_second = 0,
          dt_microsecond = 0\<rparr>"
  by (simp add: compute_next_run_def Let_def dt_defs plus_days_def next_day_def)

text \<open>
  C8, amended. \<^verbatim>\<open>next_run_from_now\<close> of bot2.0.py and bot3.0.py returns none when the
  schedule is not enabled, and returns none for a type that is none of daily, weekly,
  monthly and every_n_days. \<^verbatim>\<open>compute_next_run\<close> of bot3.1.py has no enabled flag; an
  unrecognized preset is treated as daily, and every mode other than preset as the
  every-days mode.
\<close>

theorem unrecognized_kind_per_version:
  "(\<not> enabled s \<longrightarrow> next_run_from_now s now = Some (Inr None))
   \<and> (sched_type s \<notin> {''daily'', ''weekly'', ''monthly'', ''every_n_days''}
        \<longrightarrow> next_run_from_now s now = Some (Inr None))
   \<and> (mode sc = ''preset'' \<and> preset sc \<notin> {''daily'', ''weekly'', ''monthly''}
        \<longrightarrow> compute_next_run sc now = compute_next_run (sc\<lparr>preset := ''daily''\<rparr>) now)
   \<and> (mode sc \<noteq> ''preset''
        \<longrightarrow> compute_next_run sc now = compute_next_run (sc\<lparr>mode := ''every_days''\<rparr>) now)"
  by (auto simp add: next_run_from_now_def compute_next_run_def Let_def split: sum.splits)

theorem unrecognized_kind_per_version_witness:
  "next_run_from_now
     \<lparr>enabled = False, sched_type = ''daily'', n_days = 3, weekday = 0, sched_dom = 1,
      sched_time = (9, 0)\<rparr>
     \<lparr>dt_year = 2025, dt_month = 1, dt_day = 31, dt_hour = 10, dt_minute = 0, dt_second = 0,
      dt_microsecond = 0\<rparr> = Some (Inr None)
   \<and> next_run_from_now
     \<lparr>enabled = True, sched_type = ''yearly'', n_days = 3, weekday = 0, sched_dom = 1,
      sched_time = (9, 0)\<rparr>
     \<lparr>dt_year = 2025, dt_month = 1, dt_day = 31, dt_hour = 10, dt_minute = 0, dt_second = 0,
      dt_microsecond = 0\<rparr> = Some (Inr None)
   \<and> compute_next_run
     \<lparr>mode = ''preset'', preset = ''yearly'', every_days = 7, hour = 9, minute = 0\<rparr>
     \<lparr>dt_year = 2025, dt_month = 1, dt_day = 31, dt_hour = 10, dt_minute = 0, dt_second = 0,
      dt_microsecond = 0\<rparr>
     = compute_next_run
     \<lparr>mode = ''preset'', preset = ''daily'', every_days = 7, hour = 9, minute = 0\<rparr>
     \<lparr>dt_year = 2025, dt_month = 1, dt_day = 31, dt_hour = 10, dt_minute = 0, dt_second = 0,
      dt_microsecond = 0\<rparr>
   \<and> compute_next_run
     \<lparr>mode = ''sometimes'', preset = ''weekly'', every_days = 7, hour = 9, minute = 0\<rparr>
     \<lparr>dt_year = 2025, dt_month = 1, dt_day = 31, dt_hour = 10, dt_minute = 0, dt_second = 0,
      dt_microsecond = 0\<rparr>
     = compute_next_run
     \<lparr>mode = ''every_days'', preset = ''weekly'', every_days = 7, hour = 9, minute = 0\<rparr>
     \<lparr>dt_year = 2025, dt_month = 1, dt_day = 31, dt_hour = 10, dt_minute = 0, dt_second = 0,
      dt_microsecond = 0\<rparr>"
  using unrecognized_kind_per_version
          [of "\<lparr>enabled = False, sched_type = ''daily'', n_days = 3, weekday = 0, sched_dom = 1,
                sched_time = (9, 0)\<rparr>"
              "\<lparr>dt_year = 2025, dt_month = 1, dt_day = 31, dt_hour = 10, dt_minute = 0,
                dt_second = 0, dt_microsecond = 0\<rparr>"
              "\<lparr>mode = ''preset'', preset = ''yearly'', every_days = 7, hour = 9, minute = 0\<rparr>"]
        unrecognized_kind_per_version
          [of "\<lparr>enabled = True, sched_type = ''yearly'', n_days = 3, weekday = 0, sched_dom = 1,
                sched_time = (9, 0)\<rparr>"
              "\<lparr>dt_year = 2025, dt_month = 1, dt_day = 31, dt_hour = 10, dt_minute = 0,
                dt_second = 0, dt_microsecond = 0\<rparr>"
              "\<lparr>mode = ''sometimes'', preset = ''weekly'', every_days = 7, hour = 9, minute = 0\<rparr>"]
  by simp

section \<open>Fairness over a cycle\<close>

subsection \<open>One selection step\<close>

lemma py_from_nonneg: "0 \<le> i \<Longrightarrow> py_from xs i = drop (nat i) xs"
  by (simp add: py_from_def)

lemma py_upto_nonneg: "0 \<le> n \<Longrightarrow> py_upto xs n = take (nat n) xs"
  by (simp add: py_upto_def)

lemma filter_in_superset: "set xs \<subseteq> A \<Longrightarrow> filter (\<lambda>u. u \<in> A) xs = xs"
  by (induction xs) auto

lemma select_ids_full:
  assumes "1 \<le> y"
    and "r = (let l = filter (\<lambda>uid. uid \<in> set pool) (py_from q i) in if l = [] then nq else l)"
    and "y \<le> int (length r)"
  shows "select_ids y pool nq nc q i = (take (nat y) r, r, y)"
  using assms
  by (simp add: select_ids_def coerce_y_def repair_cycle_with_current_a_def Let_def
      py_slice_def py_from_nonneg py_upto_nonneg)

lemma select_ids_topup:
  assumes "1 \<le> y"
    and "r = (let l = filter (\<lambda>uid. uid \<in> set pool) (py_from q i) in if l = [] then nq else l)"
    and "int (length r) < y"
  shows "select_ids y pool nq nc q i =
           (r @ take (nat (y - int (length r))) nc, drop (nat (y - int (length r))) nc, 0)"
  using assms
  by (simp add: select_ids_def coerce_y_def repair_cycle_with_current_a_def Let_def
      py_slice_def py_from_nonneg py_upto_nonneg)

lemma remove_keeps_cycle:
  "cycle_queue (remove_role_b_from_current_holders now d) = cycle_queue d"
  "cycle_index (remove_role_b_from_current_holders now d) = cycle_index d"
  "picks_y (remove_role_b_from_current_holders now d) = picks_y d"
  by (simp_all add: remove_role_b_from_current_holders_def Let_def)

lemma run_rotation_fields:
  assumes "select_ids (picks_y d) (a_ids_now env) (newq env) (new_cycle_ids env)
             (cycle_queue d) (cycle_index d) = (sel, q', i')"
  shows "current_holders (fst (run_rotation env d)) = filter (\<lambda>uid. uid \<in> set (a_ids_now env)) sel"
    and "cycle_queue (fst (run_rotation env d)) = q'"
    and "cycle_index (fst (run_rotation env d)) = i'"
    and "picks_y (fst (run_rotation env d)) = picks_y d"
  using assms
  by (simp_all add: run_rotation_def pick_next_batch_def remove_keeps_cycle Let_def)

lemma ceil_div_covers: "0 < k \<Longrightarrow> n \<le> ((n + k - 1) div k) * (k::nat)"
  using dividend_less_div_times [of k "n + k - 1"] by simp


lemma cycle_prefix:
  assumes y: "1 \<le> y"
  shows "picks_y d = y \<Longrightarrow>
         r = (let l = filter (\<lambda>uid. uid \<in> set pool) (py_from (cycle_queue d) (cycle_index d))
              in if l = [] then newq e else l) \<Longrightarrow>
         set r \<subseteq> set pool \<Longrightarrow>
         \<forall>x \<in> set (e # es). a_ids_now x = pool \<Longrightarrow>
         length r \<le> length (e # es) * nat y \<Longrightarrow>
         take (length r) (concat (run_many (e # es) d)) = r"
proof (induction es arbitrary: e d r)
  case Nil
  have pool: "a_ids_now e = pool" using Nil.prems(4) by simp
  show ?case
  proof (cases "y \<le> int (length r)")
    case True
    then have len: "length r = nat y" using Nil.prems(5) by simp
    have sel: "select_ids (picks_y d) (a_ids_now e) (newq e) (new_cycle_ids e)
                 (cycle_queue d) (cycle_index d) = (take (nat y) r, r, y)"
      using select_ids_full [OF y Nil.prems(2) True] Nil.prems(1) pool by simp
    have "current_holders (fst (run_rotation e d)) = r"
      using run_rotation_fields(1) [OF sel] pool len Nil.prems(3)
      by (simp add: filter_in_superset)
    then show ?thesis by (simp add: Let_def)
  next
    case False
    then have lt: "int (length r) < y" by simp
    have sel: "select_ids (picks_y d) (a_ids_now e) (newq e) (new_cycle_ids e)
                 (cycle_queue d) (cycle_index d) =
               (r @ take (nat (y - int (length r))) (new_cycle_ids e),
                drop (nat (y - int (length r))) (new_cycle_ids e), 0)"
      using select_ids_topup [OF y Nil.prems(2) lt] Nil.prems(1) pool by simp
    have "current_holders (fst (run_rotation e d)) =
            r @ filter (\<lambda>uid. uid \<in> set pool) (take (nat (y - int (length r))) (new_cycle_ids e))"
      using run_rotation_fields(1) [OF sel] pool Nil.prems(3)
      by (simp add: filter_in_superset)
    then show ?thesis by (simp add: Let_def)
  qed
next
  case (Cons e2 es)
  have pool: "a_ids_now e = pool" using Cons.prems(4) by simp
  show ?case
  proof (cases "y \<le> int (length r)")
    case True
    let ?d' = "fst (run_rotation e d)"
    have sel: "select_ids (picks_y d) (a_ids_now e) (newq e) (new_cycle_ids e)
                 (cycle_queue d) (cycle_index d) = (take (nat y) r, r, y)"
      using select_ids_full [OF y Cons.prems(2) True] Cons.prems(1) pool by simp
    have sub: "set (take (nat y) r) \<subseteq> set pool"
      using Cons.prems(3) set_take_subset by fastforce
    have holders: "current_holders ?d' = take (nat y) r"
      using run_rotation_fields(1) [OF sel] pool sub by (simp add: filter_in_superset)
    have q': "cycle_queue ?d' = r" "cycle_index ?d' = y" "picks_y ?d' = y"
      using run_rotation_fields(2,3,4) [OF sel] Cons.prems(1) by simp_all
    show ?thesis
    proof (cases "length r = nat y")
      case True
      then show ?thesis using holders by (simp add: Let_def)
    next
      case False
      then have gt: "nat y < length r" using True by simp
      let ?r' = "drop (nat y) r"
      have sub': "set ?r' \<subseteq> set pool"
        using Cons.prems(3) set_drop_subset by fastforce
      have ne: "?r' \<noteq> []" using gt by simp
      have r': "?r' = (let l = filter (\<lambda>uid. uid \<in> set pool)
                                 (py_from (cycle_queue ?d') (cycle_index ?d'))
                       in if l = [] then newq e2 else l)"
        using q' y sub' ne by (simp add: py_from_nonneg filter_in_superset Let_def)
      have len': "length ?r' \<le> length (e2 # es) * nat y"
        using Cons.prems(5) gt by simp
      have all': "\<forall>x \<in> set (e2 # es). a_ids_now x = pool"
        using Cons.prems(4) by simp
      have ih: "take (length ?r') (concat (run_many (e2 # es) ?d')) = ?r'"
        using Cons.IH [OF q'(3) r' sub' all' len'] .
      have "take (length r) (concat (run_many (e # e2 # es) d))
              = take (nat y) r @ take (length r - nat y) (concat (run_many (e2 # es) ?d'))"
        using holders gt by (simp add: Let_def)
      also have "\<dots> = take (nat y) r @ ?r'" using ih by simp
      finally show ?thesis by simp
    qed
  next
    case False
    then have lt: "int (length r) < y" by simp
    have sel: "select_ids (picks_y d) (a_ids_now e) (newq e) (new_cycle_ids e)
                 (cycle_queue d) (cycle_index d) =
               (r @ take (nat (y - int (length r))) (new_cycle_ids e),
                drop (nat (y - int (length r))) (new_cycle_ids e), 0)"
      using select_ids_topup [OF y Cons.prems(2) lt] Cons.prems(1) pool by simp
    have "current_holders (fst (run_rotation e d)) =
            r @ filter (\<lambda>uid. uid \<in> set pool) (take (nat (y - int (length r))) (new_cycle_ids e))"
      using run_rotation_fields(1) [OF sel] pool Cons.prems(3)
      by (simp add: filter_in_superset)
    then show ?thesis by (simp add: Let_def)
  qed
qed


lemma assign_picks_all:
  "\<forall>uid \<in> set picks. present uid \<and> granted uid \<Longrightarrow>
   snd (assign_picks present granted now picks st) = picks"
  by (induction picks arbitrary: st) (simp_all add: split_beta)

lemma select_picks_full:
  assumes "1 \<le> y"
    and r: "r = (let l = filter (\<lambda>uid. uid \<in> set members) pool0 in if l = [] then sh else l)"
    and "y \<le> int (length r)"
  shows "select_picks y members sh nc pool0 = (take (nat y) r, drop (nat y) r)"
proof -
  have y1: "picks_number_y y = y" using assms(1) by (simp add: picks_number_y_def)
  have r': "(if filter (\<lambda>uid. uid \<in> set members) pool0 = [] then sh
             else filter (\<lambda>uid. uid \<in> set members) pool0) = r"
    using r by (simp add: Let_def)
  have tn: "min y (int (length r)) = y" using assms(3) by simp
  have sl: "py_upto r y = take (nat y) r" "py_from r y = drop (nat y) r"
    using assms(1) by (simp_all add: py_upto_nonneg py_from_nonneg)
  have len: "int (length (take (nat y) r)) = y" using assms(1,3) by simp
  show ?thesis
    unfolding select_picks_def Let_def y1 r' tn sl len by simp
qed

lemma select_picks_topup:
  assumes "1 \<le> y"
    and r: "r = (let l = filter (\<lambda>uid. uid \<in> set members) pool0 in if l = [] then sh else l)"
    and "int (length r) < y"
  shows "\<exists>t. fst (select_picks y members sh nc pool0) = r @ t \<and> set t \<subseteq> set nc"
proof -
  let ?nc = "filter (\<lambda>uid. uid \<notin> set r) nc"
  let ?need = "y - int (length r)"
  have y1: "picks_number_y y = y" using assms(1) by (simp add: picks_number_y_def)
  have r': "(if filter (\<lambda>uid. uid \<in> set members) pool0 = [] then sh
             else filter (\<lambda>uid. uid \<in> set members) pool0) = r"
    using r by (simp add: Let_def)
  have tn: "min y (int (length r)) = int (length r)" using assms(3) by simp
  have sl: "py_upto r (int (length r)) = r" "py_from r (int (length r)) = []"
    by (simp_all add: py_upto_nonneg py_from_nonneg)
  have need: "0 < ?need" using assms(3) by simp
  have "select_picks y members sh nc pool0 =
          (if int (length ?nc) \<ge> ?need
           then (r @ py_upto ?nc ?need, py_from ?nc ?need) else (r @ ?nc, []))"
    unfolding select_picks_def Let_def y1 r' tn sl using need by simp
  then have "fst (select_picks y members sh nc pool0) =
          (if int (length ?nc) \<ge> ?need then r @ take (nat ?need) ?nc else r @ ?nc)"
    using need by (simp add: py_upto_nonneg)
  moreover have "set (take (nat ?need) ?nc) \<subseteq> set nc"
    using set_take_subset [of "nat ?need" ?nc] by auto
  moreover have "set ?nc \<subseteq> set nc" by auto
  ultimately show ?thesis by (cases "int (length ?nc) \<ge> ?need") auto
qed

lemma perform_run_eq:
  assumes "roles_found env"
  shows "perform_run y env st =
     Some (\<lparr>current_cycle_pool =
              snd (select_picks y (members_with_a env) (shuffled_pool env)
                     (shuffled_new_cycle env) (current_cycle_pool st)),
            user_stats_of =
              fst (assign_picks (is_member env) (grant_ok env) (now_ts env)
                     (fst (select_picks y (members_with_a env) (shuffled_pool env)
                             (shuffled_new_cycle env) (current_cycle_pool st)))
                     (fst (remove_all (remove_ok env) (now_ts env) (prev_b_holders env)
                             (user_stats_of st))))\<rparr>,
           fst (select_picks y (members_with_a env) (shuffled_pool env)
                  (shuffled_new_cycle env) (current_cycle_pool st)),
           \<lparr>assigned_mentions =
              snd (assign_picks (is_member env) (grant_ok env) (now_ts env)
                     (fst (select_picks y (members_with_a env) (shuffled_pool env)
                             (shuffled_new_cycle env) (current_cycle_pool st)))
                     (fst (remove_all (remove_ok env) (now_ts env) (prev_b_holders env)
                             (user_stats_of st)))),
            removed_mentions =
              snd (remove_all (remove_ok env) (now_ts env) (prev_b_holders env)
                     (user_stats_of st)),
            insufficient = (int (length (members_with_a env)) < picks_number_y y)\<rparr>)"
  using assms by (simp add: perform_run_def split_beta)

lemma perform_run_some:
  "roles_found env \<Longrightarrow> \<exists>st' p rep. perform_run y env st = Some (st', p, rep)"
  by (simp add: perform_run_eq)

lemma perform_many_returns:
  "\<forall>x \<in> set es. roles_found x \<Longrightarrow> \<exists>hs. perform_many y es st = Some hs"
proof (induction es arbitrary: st)
  case Nil
  then show ?case by simp
next
  case (Cons e es)
  obtain st' p rep where "perform_run y e st = Some (st', p, rep)"
    using perform_run_some [of e y st] Cons.prems by auto
  moreover obtain hs where "perform_many y es st' = Some hs"
    using Cons.IH [of st'] Cons.prems by auto
  ultimately show ?case by simp
qed

lemma perform_run_first:
  assumes y: "1 \<le> y"
    and r: "r = (let l = filter (\<lambda>uid. uid \<in> set pool) (current_cycle_pool st)
                 in if l = [] then shuffled_pool e else l)"
    and sub: "set r \<subseteq> set pool"
    and e: "roles_found e" "members_with_a e = pool" "set (shuffled_new_cycle e) \<subseteq> set pool"
           "\<forall>uid \<in> set pool. is_member e uid \<and> grant_ok e uid"
  shows "\<exists>st' p rep. perform_run y e st = Some (st', p, rep)
           \<and> (nat y < length r \<longrightarrow>
                assigned_mentions rep = take (nat y) r \<and> current_cycle_pool st' = drop (nat y) r)
           \<and> (length r \<le> nat y \<longrightarrow> (\<exists>t. assigned_mentions rep = r @ t))"
proof -
  let ?sel = "select_picks y (members_with_a e) (shuffled_pool e) (shuffled_new_cycle e)
                (current_cycle_pool st)"
  let ?asg = "assign_picks (is_member e) (grant_ok e) (now_ts e) (fst ?sel)
                (fst (remove_all (remove_ok e) (now_ts e) (prev_b_holders e) (user_stats_of st)))"
  let ?st' = "\<lparr>current_cycle_pool = snd ?sel, user_stats_of = fst ?asg\<rparr>"
  let ?rep = "\<lparr>assigned_mentions = snd ?asg,
               removed_mentions =
                 snd (remove_all (remove_ok e) (now_ts e) (prev_b_holders e) (user_stats_of st)),
               insufficient = (int (length (members_with_a e)) < picks_number_y y)\<rparr>"
  have run: "perform_run y e st = Some (?st', fst ?sel, ?rep)"
    using perform_run_eq [OF e(1)] .
  have r2: "r = (let l = filter (\<lambda>uid. uid \<in> set (members_with_a e)) (current_cycle_pool st)
                 in if l = [] then shuffled_pool e else l)"
    using r e(2) by simp
  have granted: "\<And>xs. set xs \<subseteq> set pool \<Longrightarrow>
      snd (assign_picks (is_member e) (grant_ok e) (now_ts e) xs
            (fst (remove_all (remove_ok e) (now_ts e) (prev_b_holders e) (user_stats_of st)))) = xs"
    using e(4) by (intro assign_picks_all) blast
  have long: "assigned_mentions ?rep = take (nat y) r \<and> current_cycle_pool ?st' = drop (nat y) r"
    if "nat y < length r"
  proof -
    have "y \<le> int (length r)" using that by simp
    then have sel: "?sel = (take (nat y) r, drop (nat y) r)"
      using select_picks_full [OF y r2] by simp
    have "set (take (nat y) r) \<subseteq> set pool"
      using sub set_take_subset by fastforce
    then have "snd ?asg = take (nat y) r"
      using granted [of "take (nat y) r"] sel by simp
    then show ?thesis using sel by simp
  qed
  have short: "\<exists>t. assigned_mentions ?rep = r @ t" if le: "length r \<le> nat y"
  proof (cases "y \<le> int (length r)")
    case True
    then have sel: "?sel = (take (nat y) r, drop (nat y) r)"
      using select_picks_full [OF y r2] by simp
    have tk: "take (nat y) r = r" using le by simp
    have "snd ?asg = r"
      using granted [of r] sub sel tk by simp
    then show ?thesis by simp
  next
    case False
    then have lt: "int (length r) < y" by simp
    obtain t where t: "fst ?sel = r @ t" "set t \<subseteq> set (shuffled_new_cycle e)"
      using select_picks_topup [OF y r2 lt] by blast
    have "set (r @ t) \<subseteq> set pool" using sub t(2) e(3) by auto
    then have "snd ?asg = r @ t"
      using granted [of "r @ t"] t(1) by simp
    then show ?thesis by simp
  qed
  show ?thesis
    apply (rule exI [of _ ?st'])
    apply (rule exI [of _ "fst ?sel"])
    apply (rule exI [of _ ?rep])
    using run long short by blast
qed


lemma pool_prefix:
  assumes y: "1 \<le> y"
  shows "r = (let l = filter (\<lambda>uid. uid \<in> set pool) (current_cycle_pool st)
              in if l = [] then shuffled_pool e else l) \<Longrightarrow>
         set r \<subseteq> set pool \<Longrightarrow>
         \<forall>x \<in> set (e # es). roles_found x \<and> members_with_a x = pool
              \<and> set (shuffled_new_cycle x) \<subseteq> set pool
              \<and> (\<forall>uid \<in> set pool. is_member x uid \<and> grant_ok x uid) \<Longrightarrow>
         length r \<le> length (e # es) * nat y \<Longrightarrow>
         \<exists>hs. perform_many y (e # es) st = Some hs \<and> take (length r) (concat hs) = r"
proof (induction es arbitrary: e st r)
  case Nil
  have e: "roles_found e" "members_with_a e = pool" "set (shuffled_new_cycle e) \<subseteq> set pool"
          "\<forall>uid \<in> set pool. is_member e uid \<and> grant_ok e uid"
    using Nil.prems(3) by simp_all
  obtain st' p rep where run: "perform_run y e st = Some (st', p, rep)"
    and short: "length r \<le> nat y \<longrightarrow> (\<exists>t. assigned_mentions rep = r @ t)"
    using perform_run_first [OF y Nil.prems(1,2) e] by blast
  have "length r \<le> nat y" using Nil.prems(4) by simp
  then obtain t where "assigned_mentions rep = r @ t" using short by blast
  then show ?case using run by simp
next
  case (Cons e2 es)
  have e: "roles_found e" "members_with_a e = pool" "set (shuffled_new_cycle e) \<subseteq> set pool"
          "\<forall>uid \<in> set pool. is_member e uid \<and> grant_ok e uid"
    using Cons.prems(3) by simp_all
  obtain st' p rep where run: "perform_run y e st = Some (st', p, rep)"
    and long: "nat y < length r \<longrightarrow>
                assigned_mentions rep = take (nat y) r \<and> current_cycle_pool st' = drop (nat y) r"
    and short: "length r \<le> nat y \<longrightarrow> (\<exists>t. assigned_mentions rep = r @ t)"
    using perform_run_first [OF y Cons.prems(1,2) e] by blast
  have all': "\<forall>x \<in> set (e2 # es). roles_found x \<and> members_with_a x = pool
              \<and> set (shuffled_new_cycle x) \<subseteq> set pool
              \<and> (\<forall>uid \<in> set pool. is_member x uid \<and> grant_ok x uid)"
    using Cons.prems(3) by simp
  show ?case
  proof (cases "nat y < length r")
    case True
    let ?r' = "drop (nat y) r"
    have sub': "set ?r' \<subseteq> set pool"
      using Cons.prems(2) set_drop_subset by fastforce
    have ne: "?r' \<noteq> []" using True by simp
    have pool': "current_cycle_pool st' = ?r'" and asg: "assigned_mentions rep = take (nat y) r"
      using long True by simp_all
    have r': "?r' = (let l = filter (\<lambda>uid. uid \<in> set pool) (current_cycle_pool st')
                     in if l = [] then shuffled_pool e2 else l)"
      unfolding pool' using sub' ne by (simp add: filter_in_superset Let_def)
    have len': "length ?r' \<le> length (e2 # es) * nat y"
      using Cons.prems(4) True by simp
    obtain hs where hs: "perform_many y (e2 # es) st' = Some hs"
      and ih: "take (length ?r') (concat hs) = ?r'"
      using Cons.IH [OF r' sub' all' len'] by blast
    have pm: "perform_many y (e # e2 # es) st = Some (take (nat y) r # hs)"
      using run hs asg by simp
    have "take (length r) (concat (take (nat y) r # hs))
            = take (nat y) r @ take (length r - nat y) (concat hs)"
      using True by simp
    also have "\<dots> = take (nat y) r @ ?r'" using ih by simp
    finally have "take (length r) (concat (take (nat y) r # hs)) = r" by simp
    then show ?thesis using pm by blast
  next
    case False
    then have le: "length r \<le> nat y" by simp
    obtain t where t: "assigned_mentions rep = r @ t" using short le by blast
    have "\<forall>x \<in> set (e2 # es). roles_found x" using all' by simp
    then obtain hs where hs: "perform_many y (e2 # es) st' = Some hs"
      using perform_many_returns [of "e2 # es" y st'] by blast
    have pm: "perform_many y (e # e2 # es) st = Some ((r @ t) # hs)"
      using run hs t by simp
    have "take (length r) (concat ((r @ t) # hs)) = r" by simp
    then show ?thesis using pm by blast
  qed
qed


lemma perm_length: "distinct xs \<Longrightarrow> distinct ys \<Longrightarrow> set xs = set ys \<Longrightarrow> length xs = length ys"
  by (metis distinct_card)


subsection \<open>The cycle\<close>

text \<open>
  C1. A stable pool of \<open>P\<close> distinct eligible members, a picks number \<open>y\<close> with
  \<open>1 \<le> y \<le> P\<close>, a start at the beginning of a cycle (nothing of the stored queue is
  left for the pool), and \<open>ceil(P / y)\<close> consecutive runs in which every shuffle returns
  a permutation of the pool. List the holders recorded by the runs one run after the
  other, each batch in its own order: the first \<open>P\<close> entries are the \<open>P\<close> pool members,
  each exactly once. So within these runs every member has held the role once before any
  member holds it a second time. This holds for \<^verbatim>\<open>current_holders\<close> of bot3.0.py
  (the selection is the same in bot2.0.py), and for the members granted the role by
  \<^verbatim>\<open>perform_run\<close> of bot3.1.py when the roles are found and the grants succeed.
\<close>

theorem fairness_over_a_cycle:
  assumes "distinct pool" and "1 \<le> y" and "y \<le> int (length pool)"
    and "picks_y d = y"
    and "fst (repair_cycle_with_current_a (cycle_queue d) (cycle_index d) pool) = []"
    and "length envs = (length pool + nat y - 1) div nat y"
    and "\<forall>e \<in> set envs. a_ids_now e = pool
            \<and> distinct (newq e) \<and> set (newq e) = set pool
            \<and> distinct (new_cycle_ids e) \<and> set (new_cycle_ids e) = set pool"
    and "filter (\<lambda>uid. uid \<in> set pool) (current_cycle_pool st) = []"
    and "length genvs = (length pool + nat y - 1) div nat y"
    and "\<forall>e \<in> set genvs. roles_found e \<and> members_with_a e = pool
            \<and> distinct (shuffled_pool e) \<and> set (shuffled_pool e) = set pool
            \<and> distinct (shuffled_new_cycle e) \<and> set (shuffled_new_cycle e) = set pool
            \<and> (\<forall>uid \<in> set pool. is_member e uid \<and> grant_ok e uid)"
  shows "distinct (take (length pool) (concat (run_many envs d)))
       \<and> set (take (length pool) (concat (run_many envs d))) = set pool
       \<and> (\<exists>hs. perform_many y genvs st = Some hs
             \<and> distinct (take (length pool) (concat hs))
             \<and> set (take (length pool) (concat hs)) = set pool)"
proof -
  have k: "0 < nat y" using assms(2) by simp
  have runs: "length pool \<le> ((length pool + nat y - 1) div nat y) * nat y"
    using ceil_div_covers [OF k] .
  have pos: "0 < length pool" using assms(2,3) by (cases pool) simp_all
  then have "0 < (length pool + nat y - 1) div nat y"
    using runs by (metis mult_0 not_gr_zero not_less)
  then obtain e es where envs: "envs = e # es"
    using assms(6) by (cases envs) simp_all
  have "0 < (length pool + nat y - 1) div nat y"
    using runs pos by (metis mult_0 not_gr_zero not_less)
  then obtain g gs where genvs: "genvs = g # gs"
    using assms(9) by (cases genvs) simp_all
  have e: "distinct (newq e)" "set (newq e) = set pool"
    using assms(7) envs by simp_all
  have r: "newq e = (let l = filter (\<lambda>uid. uid \<in> set pool)
                                (py_from (cycle_queue d) (cycle_index d))
                     in if l = [] then newq e else l)"
    using assms(5) by (simp add: repair_cycle_with_current_a_def Let_def)
  have len: "length (newq e) = length pool"
    using perm_length [OF e(1) assms(1) e(2)] .
  have all: "\<forall>x \<in> set (e # es). a_ids_now x = pool" using assms(7) envs by simp
  have bound: "length (newq e) \<le> length (e # es) * nat y"
    using runs assms(6) envs len by simp
  have "take (length (newq e)) (concat (run_many (e # es) d)) = newq e"
    using cycle_prefix [OF assms(2) assms(4) r _ all bound] e(2) by simp
  then have first: "take (length pool) (concat (run_many envs d)) = newq e"
    using len envs by simp
  have g: "distinct (shuffled_pool g)" "set (shuffled_pool g) = set pool"
    using assms(10) genvs by simp_all
  have r2: "shuffled_pool g = (let l = filter (\<lambda>uid. uid \<in> set pool) (current_cycle_pool st)
                               in if l = [] then shuffled_pool g else l)"
    using assms(8) by (simp add: Let_def)
  have len2: "length (shuffled_pool g) = length pool"
    using perm_length [OF g(1) assms(1) g(2)] .
  have all2: "\<forall>x \<in> set (g # gs). roles_found x \<and> members_with_a x = pool
              \<and> set (shuffled_new_cycle x) \<subseteq> set pool
              \<and> (\<forall>uid \<in> set pool. is_member x uid \<and> grant_ok x uid)"
    using assms(10) genvs by simp
  have bound2: "length (shuffled_pool g) \<le> length (g # gs) * nat y"
    using runs assms(9) genvs len2 by simp
  obtain hs where hs: "perform_many y (g # gs) st = Some hs"
    and pre: "take (length (shuffled_pool g)) (concat hs) = shuffled_pool g"
    using pool_prefix [OF assms(2) r2 _ all2 bound2] g(2) by auto
  have second: "perform_many y genvs st = Some hs"
       "take (length pool) (concat hs) = shuffled_pool g"
    using hs pre len2 genvs by simp_all
  show ?thesis using first e second g by auto
qed

theorem fairness_over_a_cycle_witness:
  "distinct (take (length [1, 2, 3 :: int]) (concat (run_many
       [\<lparr>a_ids_now = [1, 2, 3], add_ok = (\<lambda>uid. True), now_remove = 10, now_pick = 10,
         newq = [2, 3, 1], new_cycle_ids = [3, 1, 2]\<rparr>,
        \<lparr>a_ids_now = [1, 2, 3], add_ok = (\<lambda>uid. True), now_remove = 20, now_pick = 20,
         newq = [1, 3, 2], new_cycle_ids = [3, 1, 2]\<rparr>]
       (default_data 2))))
   \<and> set (take (length [1, 2, 3 :: int]) (concat (run_many
       [\<lparr>a_ids_now = [1, 2, 3], add_ok = (\<lambda>uid. True), now_remove = 10, now_pick = 10,
         newq = [2, 3, 1], new_cycle_ids = [3, 1, 2]\<rparr>,
        \<lparr>a_ids_now = [1, 2, 3], add_ok = (\<lambda>uid. True), now_remove = 20, now_pick = 20,
         newq = [1, 3, 2], new_cycle_ids = [3, 1, 2]\<rparr>]
       (default_data 2)))) = set [1, 2, 3]
   \<and> (\<exists>hs. perform_many 2
       [\<lparr>roles_found = True, members_with_a = [1, 2, 3], prev_b_holders = [],
         is_member = (\<lambda>uid. True), remove_ok = (\<lambda>uid. True), grant_ok = (\<lambda>uid. True),
         now_ts = 10, shuffled_pool = [2, 3, 1], shuffled_new_cycle = [3, 1, 2]\<rparr>,
        \<lparr>roles_found = True, members_with_a = [1, 2, 3], prev_b_holders = [2, 3],
         is_member = (\<lambda>uid. True), remove_ok = (\<lambda>uid. True), grant_ok = (\<lambda>uid. True),
         now_ts = 20, shuffled_pool = [1, 3, 2], shuffled_new_cycle = [3, 1, 2]\<rparr>]
       \<lparr>current_cycle_pool = [], user_stats_of = Map.empty\<rparr> = Some hs
       \<and> distinct (take (length [1, 2, 3 :: int]) (concat hs))
       \<and> set (take (length [1, 2, 3 :: int]) (concat hs)) = set [1, 2, 3])"
  by (rule fairness_over_a_cycle)
     (simp_all add: default_data_def repair_cycle_with_current_a_def py_from_def insert_commute)

section \<open>The top-up and the under-supply in bot3.1.py\<close>

text \<open>
  What is left of a shuffle of the members once the carried remainder is filtered out.
\<close>

lemma rest_of_shuffle:
  assumes "distinct nc" "distinct z" "set z \<subseteq> set nc"
  shows "length (filter (\<lambda>uid. uid \<notin> set z) nc) = length nc - length z"
proof -
  have "length (filter (\<lambda>uid. uid \<notin> set z) nc) = card ({x. x \<notin> set z} \<inter> set nc)"
    using assms(1) by (rule distinct_length_filter)
  also have "{x. x \<notin> set z} \<inter> set nc = set nc - set z" by auto
  also have "card (set nc - set z) = card (set nc) - card (set z)"
    using assms(3) by (simp add: card_Diff_subset)
  finally show ?thesis using assms(1,2) by (simp add: distinct_card)
qed

text \<open>The result of \<^verbatim>\<open>perform_run\<close>'s selection when the pool is shorter than \<open>y\<close>.\<close>

lemma select_picks_topup_eq:
  assumes "1 \<le> y"
    and r: "r = (let l = filter (\<lambda>uid. uid \<in> set members) pool0 in if l = [] then sh else l)"
    and "int (length r) < y"
  shows "select_picks y members sh nc pool0 =
          (if y - int (length r) \<le> int (length (filter (\<lambda>uid. uid \<notin> set r) nc))
           then (r @ take (nat (y - int (length r))) (filter (\<lambda>uid. uid \<notin> set r) nc),
                 drop (nat (y - int (length r))) (filter (\<lambda>uid. uid \<notin> set r) nc))
           else (r @ filter (\<lambda>uid. uid \<notin> set r) nc, []))"
proof -
  have y1: "picks_number_y y = y" using assms(1) by (simp add: picks_number_y_def)
  have r': "(if filter (\<lambda>uid. uid \<in> set members) pool0 = [] then sh
             else filter (\<lambda>uid. uid \<in> set members) pool0) = r"
    using r by (simp add: Let_def)
  have tn: "min y (int (length r)) = int (length r)" using assms(3) by simp
  have sl: "py_upto r (int (length r)) = r" "py_from r (int (length r)) = []"
    by (simp_all add: py_upto_nonneg py_from_nonneg)
  have need: "0 < y - int (length r)" using assms(3) by simp
  then have nn: "0 \<le> y - int (length r)" by simp
  show ?thesis
    unfolding select_picks_def Let_def y1 r' tn sl
    by (simp only: need if_True py_upto_nonneg [OF nn] py_from_nonneg [OF nn])
qed

text \<open>
  In bot3.1.py a carried remainder \<open>z\<close> shorter than \<open>y\<close>, with at least \<open>y\<close>
  members in all, gives a batch of exactly \<open>y\<close> members: all of \<open>z\<close>, then members
  of the fresh shuffle that are not in \<open>z\<close>, no member twice.
\<close>

lemma select_picks_topup_batch:
  assumes y: "1 \<le> y" "y \<le> int (length members)"
    and z: "z = filter (\<lambda>uid. uid \<in> set members) pool0" "z \<noteq> []" "int (length z) < y"
           "distinct pool0"
    and nc: "distinct nc" "set nc = set members" and mem: "distinct members"
  shows "\<exists>t. fst (select_picks y members sh nc pool0) = z @ t
           \<and> length (z @ t) = nat y \<and> distinct (z @ t)
           \<and> set t \<subseteq> set members - set z"
proof -
  let ?nc = "filter (\<lambda>uid. uid \<notin> set z) nc"
  let ?need = "y - int (length z)"
  have r: "z = (let l = filter (\<lambda>uid. uid \<in> set members) pool0 in if l = [] then sh else l)"
    using z(1,2) by (simp add: Let_def)
  have need: "0 < ?need" using z(3) by simp
  have dz: "distinct z" using z(1,4) by simp
  have sz: "set z \<subseteq> set nc" using z(1) nc(2) by auto
  have ln: "length nc = length members"
    using nc mem distinct_card [of nc] distinct_card [of members] by simp
  have le: "length z \<le> length nc"
    using card_mono [OF finite_set sz] dz nc(1) by (simp add: distinct_card)
  have len: "int (length ?nc) = int (length members) - int (length z)"
    using rest_of_shuffle [OF nc(1) dz sz] le ln by simp
  have enough: "?need \<le> int (length ?nc)" using y(2) len by simp
  have picks: "fst (select_picks y members sh nc pool0) = z @ take (nat ?need) ?nc"
    using select_picks_topup_eq [OF y(1) r z(3), of nc] enough by simp
  have sub: "set (take (nat ?need) ?nc) \<subseteq> set ?nc" by (rule set_take_subset)
  have rest: "set ?nc = set members - set z" using nc(2) by auto
  have d2: "distinct (take (nat ?need) ?nc)" using nc(1) by simp
  have "length (z @ take (nat ?need) ?nc) = nat y"
    using enough need by simp
  moreover have "distinct (z @ take (nat ?need) ?nc)"
    using dz d2 sub rest by (simp only: distinct_append) blast
  moreover have "set (take (nat ?need) ?nc) \<subseteq> set members - set z"
    using sub rest by simp
  ultimately show ?thesis using picks by blast
qed


lemma select_picks_distinct:
  assumes y: "1 \<le> y" and d: "distinct pool0" "distinct sh" "distinct nc"
  shows "distinct (fst (select_picks y members sh nc pool0))"
proof -
  define r where "r = (let l = filter (\<lambda>uid. uid \<in> set members) pool0 in if l = [] then sh else l)"
  have dr: "distinct r" using d(1,2) by (simp add: r_def Let_def)
  let ?nc = "filter (\<lambda>uid. uid \<notin> set r) nc"
  have dn: "distinct ?nc" using d(3) by simp
  have dis: "set r \<inter> set ?nc = {}" by auto
  show ?thesis
  proof (cases "y \<le> int (length r)")
    case True
    then show ?thesis using select_picks_full [OF y r_def True, of nc] dr by simp
  next
    case False
    then have lt: "int (length r) < y" by simp
    have sub: "set (take (nat (y - int (length r))) ?nc) \<subseteq> set ?nc"
      by (rule set_take_subset)
    have d1: "distinct (r @ ?nc)" using dr dn dis by (simp only: distinct_append simp_thms)
    have d2: "distinct (r @ take (nat (y - int (length r))) ?nc)"
      using dr dn dis sub by (simp only: distinct_append distinct_take) blast
    show ?thesis
      using select_picks_topup_eq [OF y r_def lt, of nc] d1 d2
      by (cases "y - int (length r) \<le> int (length ?nc)") simp_all
  qed
qed

lemma select_picks_members:
  assumes y: "1 \<le> y" and s: "set sh \<subseteq> set members" "set nc \<subseteq> set members"
  shows "set (fst (select_picks y members sh nc pool0)) \<subseteq> set members"
proof -
  define r where "r = (let l = filter (\<lambda>uid. uid \<in> set members) pool0 in if l = [] then sh else l)"
  have sr: "set r \<subseteq> set members" using s(1) by (auto simp add: r_def Let_def)
  show ?thesis
  proof (cases "y \<le> int (length r)")
    case True
    have "set (take (nat y) r) \<subseteq> set r" by (rule set_take_subset)
    then show ?thesis using select_picks_full [OF y r_def True, of nc] sr by simp
  next
    case False
    then have lt: "int (length r) < y" by simp
    obtain t where "fst (select_picks y members sh nc pool0) = r @ t" "set t \<subseteq> set nc"
      using select_picks_topup [OF y r_def lt] by blast
    then show ?thesis using sr s(2) by auto
  qed
qed

text \<open>
  In bot3.1.py fewer members than picks give a batch without repeats, at most as long as
  the member list, and the run sends the \<^verbatim>\<open>run_insufficient\<close> note.
\<close>

lemma perform_run_under_supply:
  assumes y: "1 \<le> y" and few: "int (length (members_with_a env)) < y"
    and roles: "roles_found env" and mem: "distinct (members_with_a env)"
    and d: "distinct (current_cycle_pool st)"
    and sh: "distinct (shuffled_pool env)" "set (shuffled_pool env) = set (members_with_a env)"
    and nc: "distinct (shuffled_new_cycle env)"
            "set (shuffled_new_cycle env) = set (members_with_a env)"
  shows "\<exists>st' picks report. perform_run y env st = Some (st', picks, report)
           \<and> length picks \<le> length (members_with_a env) \<and> distinct picks
           \<and> insufficient report"
proof -
  let ?picks = "fst (select_picks y (members_with_a env) (shuffled_pool env)
                       (shuffled_new_cycle env) (current_cycle_pool st))"
  have dp: "distinct ?picks"
    using select_picks_distinct [OF y d sh(1) nc(1)] .
  have sp: "set ?picks \<subseteq> set (members_with_a env)"
    using select_picks_members [OF y] sh(2) nc(2) by simp
  have "card (set ?picks) \<le> card (set (members_with_a env))"
    using sp by (simp add: card_mono)
  then have len: "length ?picks \<le> length (members_with_a env)"
    using dp mem by (simp add: distinct_card)
  have y1: "picks_number_y y = y" using y by (simp add: picks_number_y_def)
  show ?thesis
    unfolding perform_run_eq [OF roles] using len dp few y1 by simp
qed



section \<open>Duration accounting in bot3.0.py\<close>

text \<open>
  Closing an interval in \<^verbatim>\<open>remove_role_b_from_current_holders\<close>: an open interval
  adds its length, at least 0, and is cleared; a closed one is left alone; a missing
  record is created with total 0. A start instant of 0 is not seen as open.
\<close>

lemma finalize_stat_open:
  assumes "st m = Some r" "hold_started_ts r = Some s" "s \<noteq> 0"
  shows "finalize_stat now m st =
           st(m \<mapsto> r\<lparr>seconds_total := seconds_total r + max 0 (now - s),
                         hold_started_ts := None\<rparr>)"
  using assms by (simp add: finalize_stat_def ensure_user_stat_def truthy_ts_def)

lemma finalize_stat_closed:
  assumes "st m = Some r" "hold_started_ts r = None"
  shows "finalize_stat now m st = st"
  using assms by (simp add: finalize_stat_def ensure_user_stat_def truthy_ts_def)

lemma finalize_stat_absent:
  assumes "st m = None"
  shows "finalize_stat now m st = st(m \<mapsto> \<lparr>seconds_total = 0, hold_started_ts = None\<rparr>)"
  using assms by (simp add: finalize_stat_def ensure_user_stat_def truthy_ts_def)

lemma finalize_stat_since_zero:
  assumes "st m = Some r" "hold_started_ts r = Some 0"
  shows "finalize_stat now m st = st"
  using assms by (simp add: finalize_stat_def ensure_user_stat_def truthy_ts_def)

text \<open>
  Open at \<open>t0\<close>, close at \<open>t0 + 100\<close>: the total is 100. Open again at
  \<open>t0 + 200\<close>: the total reported at \<open>t0 + 250\<close> is 150.
\<close>

lemma open_close_reopen_total:
  assumes "t0 \<noteq> 0" "t0 + 200 \<noteq> 0" "st m = None"
  shows "(let st1 = assign_all (\<lambda>uid. True) t0 [m] st;
              st2 = finalize_all (t0 + 100) [m] st1;
              st3 = assign_all (\<lambda>uid. True) (t0 + 200) [m] st2
          in st2 m = Some \<lparr>seconds_total = 100, hold_started_ts = None\<rparr>
             \<and> stats_total (t0 + 250) (the (st3 m)) = 150)"
  using assms
  by (simp add: Let_def finalize_stat_def ensure_user_stat_def truthy_ts_def stats_total_def)


section \<open>Schedules that do compute a next run\<close>

lemma next_day_later:
  "(dt_year t, dt_month t, dt_day t)
     < (dt_year (next_day t), dt_month (next_day t), dt_day (next_day t))"
  by (simp add: next_day_def)

lemma next_day_time:
  "dt_hour (next_day t) = dt_hour t" "dt_minute (next_day t) = dt_minute t"
  "dt_second (next_day t) = dt_second t" "dt_microsecond (next_day t) = dt_microsecond t"
  by (simp_all add: next_day_def)

lemma add_days_not_earlier:
  "(dt_year t, dt_month t, dt_day t)
     \<le> (dt_year (add_days k t), dt_month (add_days k t), dt_day (add_days k t))"
proof (induction k arbitrary: t)
  case 0
  then show ?case by simp
next
  case (Suc k)
  have "(dt_year t, dt_month t, dt_day t)
          < (dt_year (next_day t), dt_month (next_day t), dt_day (next_day t))"
    by (rule next_day_later)
  also have "\<dots> \<le> (dt_year (add_days k (next_day t)), dt_month (add_days k (next_day t)),
                   dt_day (add_days k (next_day t)))"
    by (rule Suc.IH)
  finally show ?case by auto
qed

lemma add_days_later:
  assumes "0 < k"
  shows "(dt_year t, dt_month t, dt_day t)
           < (dt_year (add_days k t), dt_month (add_days k t), dt_day (add_days k t))"
proof -
  obtain j where k: "k = Suc j" using assms by (cases k) simp_all
  have "(dt_year t, dt_month t, dt_day t)
          < (dt_year (next_day t), dt_month (next_day t), dt_day (next_day t))"
    by (rule next_day_later)
  also have "\<dots> \<le> (dt_year (add_days j (next_day t)), dt_month (add_days j (next_day t)),
                   dt_day (add_days j (next_day t)))"
    by (rule add_days_not_earlier)
  finally show ?thesis using k by simp
qed

lemma later_date_later:
  assumes "(dt_year a, dt_month a, dt_day a) < (dt_year b, dt_month b, dt_day b)"
  shows "dt_less a b" and "\<not> dt_le b a"
  using assms by (auto simp add: dt_less_def dt_le_def dt_key_def)

lemma not_le_less: "\<not> dt_le a b \<Longrightarrow> dt_less b a"
  by (simp add: dt_less_def dt_le_def not_le)

lemma plus_days_later:
  assumes "0 < k" and "dt_year c = dt_year now" "dt_month c = dt_month now" "dt_day c = dt_day now"
  shows "dt_less now (plus_days c k)" and "\<not> dt_le (plus_days c k) now"
proof -
  have "(dt_year now, dt_month now, dt_day now)
          < (dt_year (plus_days c k), dt_month (plus_days c k), dt_day (plus_days c k))"
    using add_days_later [of "nat k" c] assms by (simp add: plus_days_def)
  then show "dt_less now (plus_days c k)" and "\<not> dt_le (plus_days c k) now"
    by (rule later_date_later)+
qed


lemma at_time_ok:
  assumes "fields_ok now" "0 \<le> hh" "hh \<le> 23" "0 \<le> mm" "mm \<le> 59"
  shows "replaced (now\<lparr>dt_hour := hh, dt_minute := mm, dt_second := 0, dt_microsecond := 0\<rparr>)
           = Inr (now\<lparr>dt_hour := hh, dt_minute := mm, dt_second := 0, dt_microsecond := 0\<rparr>)"
  using assms by (simp add: replaced_def fields_ok_def)

lemma moved_on_later:
  assumes "0 < k" and "dt_year c = dt_year now" "dt_month c = dt_month now" "dt_day c = dt_day now"
  shows "dt_less now (if dt_le c now then plus_days c k else c)"
  using plus_days_later(1) [OF assms] not_le_less [of c now] by simp

text \<open>
  \<^verbatim>\<open>compute_next_run\<close> of bot3.1.py returns a time strictly after \<open>now\<close>, whatever
  the mode and the preset.
\<close>

lemma compute_next_run_after:
  assumes "fields_ok now" "0 \<le> hour sc" "hour sc \<le> 23" "0 \<le> minute sc" "minute sc \<le> 59"
  shows "\<exists>t. compute_next_run sc now = Inr t \<and> dt_less now t"
proof -
  let ?target = "now\<lparr>dt_hour := hour sc, dt_minute := minute sc, dt_second := 0,
                      dt_microsecond := 0\<rparr>"
  have rep: "replaced ?target = Inr ?target" using at_time_ok [OF assms] .
  have later: "\<And>k. 0 < k \<Longrightarrow>
      dt_less now (if dt_le ?target now then plus_days ?target k else ?target)"
    by (rule moved_on_later) simp_all
  have k: "0 < max 1 (every_days sc)" by simp
  show ?thesis
    unfolding compute_next_run_def Let_def rep
    using later [of 1] later [of 7] later [of 30] later [OF k] by simp
qed

lemma while_not_after_returns:
  assumes "0 < n" and "dt_year c = dt_year now" "dt_month c = dt_month now" "dt_day c = dt_day now"
  shows "\<exists>t. while_not_after n now c = Some t \<and> dt_less now t"
proof (cases "dt_le c now")
  case True
  have "while_not_after n now c = while_not_after n now (plus_days c n)"
    using True by (subst while_not_after.simps) simp
  also have "\<dots> = Some (plus_days c n)"
    using plus_days_later(2) [OF assms] by (subst while_not_after.simps) simp
  finally show ?thesis using plus_days_later(1) [OF assms] by simp
next
  case False
  then have "while_not_after n now c = Some c"
    by (subst while_not_after.simps) simp
  then show ?thesis using not_le_less [OF False] by simp
qed

lemma fix_day_keeps:
  "dt_year (fix_day dv ds c) = dt_year c" "dt_month (fix_day dv ds c) = dt_month c"
  by (induction ds arbitrary: c) (simp_all add: replaced_def split: sum.splits if_splits)


text \<open>
  \<^verbatim>\<open>next_run_from_now\<close> of bot2.0.py and bot3.0.py, schedule enabled: daily, weekly
  and every-N-days schedules return a time strictly after \<open>now\<close>.
\<close>

lemma next_run_from_now_after:
  assumes en: "enabled s" and ok: "fields_ok now"
    and tm: "0 \<le> fst (sched_time s)" "fst (sched_time s) \<le> 23"
            "0 \<le> snd (sched_time s)" "snd (sched_time s) \<le> 59"
    and kind: "sched_type s = ''daily'' \<or> sched_type s = ''weekly''
               \<or> sched_type s = ''every_n_days''"
  shows "\<exists>t. next_run_from_now s now = Some (Inr (Some t)) \<and> dt_less now t"
proof -
  let ?cand = "now\<lparr>dt_hour := fst (sched_time s), dt_minute := snd (sched_time s),
                    dt_second := 0, dt_microsecond := 0\<rparr>"
  have rep: "replaced ?cand = Inr ?cand" using at_time_ok [OF ok tm] .
  have same: "dt_year ?cand = dt_year now" "dt_month ?cand = dt_month now"
             "dt_day ?cand = dt_day now" by simp_all
  consider (d) "sched_type s = ''daily''" | (w) "sched_type s = ''weekly''"
    | (n) "sched_type s = ''every_n_days''" using kind by blast
  then show ?thesis
  proof cases
    case d
    have "dt_less now (if dt_le ?cand now then plus_days ?cand 1 else ?cand)"
      by (rule moved_on_later) simp_all
    then show ?thesis
      using en d rep by (simp add: next_run_from_now_def Let_def)
  next
    case w
    let ?ahead = "(weekday s - dt_weekday ?cand) mod 7"
    let ?ahead2 = "if ?ahead = 0 \<and> dt_le ?cand now then 7 else ?ahead"
    have nn: "0 \<le> ?ahead" by simp
    have "dt_less now (plus_days ?cand ?ahead2)"
    proof (cases "?ahead = 0")
      case True
      show ?thesis
      proof (cases "dt_le ?cand now")
        case True
        have "dt_less now (plus_days ?cand 7)"
          by (rule plus_days_later(1)) simp_all
        then show ?thesis using True \<open>?ahead = 0\<close> by simp
      next
        case False
        then show ?thesis using \<open>?ahead = 0\<close> not_le_less [OF False] by (simp add: plus_days_def)
      qed
    next
      case False
      then have pos: "0 < ?ahead" using nn by linarith
      have "dt_less now (plus_days ?cand ?ahead)"
        using plus_days_later(1) [OF pos same] .
      then show ?thesis using False by simp
    qed
    then show ?thesis
      using en w rep by (simp add: next_run_from_now_def Let_def)
  next
    case n
    have k: "0 < max 1 (n_days s)" by simp
    obtain t where "while_not_after (max 1 (n_days s)) now ?cand = Some t" "dt_less now t"
      using while_not_after_returns [OF k same] by blast
    then show ?thesis
      using en n rep by (simp add: next_run_from_now_def Let_def)
  qed
qed

text \<open>A monthly schedule returns a time strictly after \<open>now\<close>, or raises.\<close>

lemma next_run_from_now_monthly:
  assumes en: "enabled s" and kind: "sched_type s = ''monthly''"
  shows "(\<exists>t. next_run_from_now s now = Some (Inr (Some t)) \<and> dt_less now t)
         \<or> next_run_from_now s now = Some (Inl ValueError)"
proof -
  let ?c0 = "now\<lparr>dt_day := min (sched_dom s) 28, dt_hour := fst (sched_time s),
                  dt_minute := snd (sched_time s), dt_second := 0, dt_microsecond := 0\<rparr>"
  let ?days = "[28, 29, 30, 31] :: int list"
  show ?thesis
  proof (cases "replaced ?c0")
    case (Inl e)
    then show ?thesis using en kind by (cases e) (simp add: next_run_from_now_def Let_def)
  next
    case (Inr c0)
    then have c0: "c0 = ?c0" by (simp add: replaced_def split: if_splits)
    let ?cand = "fix_day (sched_dom s) ?days c0"
    have ym: "dt_year ?cand = dt_year now" "dt_month ?cand = dt_month now"
      using fix_day_keeps [of "sched_dom s" ?days c0] c0 by simp_all
    show ?thesis
    proof (cases "dt_le ?cand now")
      case False
      have "next_run_from_now s now = Some (Inr (Some ?cand))"
        using en kind Inr False by (simp add: next_run_from_now_def Let_def)
      then show ?thesis using not_le_less [OF False] by simp
    next
      case True
      let ?y2 = "if dt_month now = 12 then dt_year now + 1 else dt_year now"
      let ?m2 = "if dt_month now = 12 then 1 else dt_month now + 1"
      let ?c1 = "?cand\<lparr>dt_year := ?y2, dt_month := ?m2\<rparr>"
      show ?thesis
      proof (cases "replaced ?c1")
        case (Inl e)
        have "next_run_from_now s now = Some (Inl e)"
          using en kind Inr True Inl c0 by (simp add: next_run_from_now_def Let_def)
        then show ?thesis by (cases e) simp
      next
        case r: (Inr c2)
        then have c2: "c2 = ?c1" and ok1: "fields_ok ?c1"
          by (simp_all add: replaced_def split: if_splits)
        let ?t = "fix_day (sched_dom s) ?days c2"
        have run: "next_run_from_now s now = Some (Inr (Some ?t))"
          using en kind Inr True r c0 by (simp add: next_run_from_now_def Let_def)
        have "dt_year ?t = ?y2" "dt_month ?t = ?m2"
          using fix_day_keeps [of "sched_dom s" ?days c2] c2 by simp_all
        moreover have "dt_month now \<le> 12"
          using ok1 by (simp add: fields_ok_def split: if_splits)
        ultimately have "(dt_year now, dt_month now, dt_day now)
                < (dt_year ?t, dt_month ?t, dt_day ?t)"
          by auto
        then have "dt_less now ?t" by (rule later_date_later(1))
        then show ?thesis using run by simp
      qed
    qed
  qed
qed

lemma month_length: "28 \<le> days_in_month y m \<and> days_in_month y m \<le> 31"
  by (simp add: days_in_month_def)

lemma try_day:
  assumes "fields_ok c"
  shows "replaced (c\<lparr>dt_day := k\<rparr>) =
           (if 1 \<le> k \<and> k \<le> days_in_month (dt_year c) (dt_month c)
            then Inr (c\<lparr>dt_day := k\<rparr>) else Inl ValueError)"
  using assms by (simp add: replaced_def fields_ok_def)

lemma try_day_ok:
  assumes "fields_ok c" "1 \<le> k" "k \<le> days_in_month (dt_year c) (dt_month c)"
  shows "fields_ok (c\<lparr>dt_day := k\<rparr>)"
  using assms by (simp add: fields_ok_def)

lemma fix_day_step:
  assumes "fields_ok c" "1 \<le> dv"
    and "dt_day c = min dv (min d0 (days_in_month (dt_year c) (dt_month c)))"
    and "1 \<le> d0" "d = d0 + 1"
  shows "\<exists>c'. fix_day dv (d # ds) c = fix_day dv ds c' \<and> fields_ok c'
           \<and> dt_year c' = dt_year c \<and> dt_month c' = dt_month c
           \<and> dt_day c' = min dv (min d (days_in_month (dt_year c) (dt_month c)))"
proof (cases "min dv d \<le> days_in_month (dt_year c) (dt_month c)")
  case True
  have one: "1 \<le> min dv d" using assms(2,4,5) by simp
  have "fix_day dv (d # ds) c = fix_day dv ds (c\<lparr>dt_day := min dv d\<rparr>)"
    using try_day [OF assms(1), of "min dv d"] True one by simp
  moreover have "fields_ok (c\<lparr>dt_day := min dv d\<rparr>)"
    using try_day_ok [OF assms(1) one True] .
  moreover have "min dv d = min dv (min d (days_in_month (dt_year c) (dt_month c)))"
    using True by (auto simp add: min_def)
  ultimately show ?thesis by (intro exI [of _ "c\<lparr>dt_day := min dv d\<rparr>"]) simp
next
  case False
  have "fix_day dv (d # ds) c = fix_day dv ds c"
    using try_day [OF assms(1), of "min dv d"] False by simp
  moreover have "dt_day c = min dv (min d (days_in_month (dt_year c) (dt_month c)))"
    using False assms(3,5) by (auto simp add: min_def split: if_splits)
  ultimately show ?thesis using assms(1) by (intro exI [of _ c]) simp
qed

text \<open>
  The day loop leaves the configured day, cut down to the length of the month.
\<close>

lemma fix_day_clamps:
  assumes ok: "fields_ok c" and dv: "1 \<le> dv" and day: "dt_day c = min dv 28"
  shows "dt_day (fix_day dv [28, 29, 30, 31] c)
           = min dv (days_in_month (dt_year c) (dt_month c))"
proof -
  let ?L = "days_in_month (dt_year c) (dt_month c)"
  have L: "28 \<le> ?L" "?L \<le> 31" using month_length [of "dt_year c" "dt_month c"] by simp_all
  have one: "1 \<le> min dv 28" using dv by simp
  have s28: "fix_day dv [28, 29, 30, 31] c = fix_day dv [29, 30, 31] (c\<lparr>dt_day := min dv 28\<rparr>)"
    using try_day [OF ok, of "min dv 28"] L one by (simp add: min_def)
  let ?c1 = "c\<lparr>dt_day := min dv 28\<rparr>"
  have ok1: "fields_ok ?c1" using try_day_ok [OF ok one] L by (simp add: min_def)
  have day1: "dt_day ?c1 = min dv (min 28 (days_in_month (dt_year ?c1) (dt_month ?c1)))"
    using L by (simp add: min_def)
  obtain c2 where c2: "fix_day dv [29, 30, 31] ?c1 = fix_day dv [30, 31] c2" "fields_ok c2"
      "dt_year c2 = dt_year c" "dt_month c2 = dt_month c" "dt_day c2 = min dv (min 29 ?L)"
    using fix_day_step [OF ok1 dv day1, of 29 "[30, 31]"] by auto
  have day2: "dt_day c2 = min dv (min 29 (days_in_month (dt_year c2) (dt_month c2)))"
    using c2 by simp
  obtain c3 where c3: "fix_day dv [30, 31] c2 = fix_day dv [31] c3" "fields_ok c3"
      "dt_year c3 = dt_year c" "dt_month c3 = dt_month c" "dt_day c3 = min dv (min 30 ?L)"
    using fix_day_step [OF c2(2) dv day2, of 30 "[31]"] c2(3,4) by auto
  have day3: "dt_day c3 = min dv (min 30 (days_in_month (dt_year c3) (dt_month c3)))"
    using c3 by simp
  obtain c4 where c4: "fix_day dv [31] c3 = fix_day dv [] c4"
      "dt_day c4 = min dv (min 31 ?L)"
    using fix_day_step [OF c3(2) dv day3, of 31 "[]"] c3(3,4) by auto
  have "dt_day (fix_day dv [28, 29, 30, 31] c) = min dv (min 31 ?L)"
    using s28 c2(1) c3(1) c4 by simp
  then show ?thesis using L by (simp add: min_def)
qed


lemma fix_day_only_day: "fix_day dv ds c = c\<lparr>dt_day := dt_day (fix_day dv ds c)\<rparr>"
proof (induction ds arbitrary: c)
  case Nil
  then show ?case by simp
next
  case (Cons d ds)
  show ?case
  proof (cases "replaced (c\<lparr>dt_day := min dv d\<rparr>)")
    case (Inl e)
    then show ?thesis using Cons.IH [of c] by simp
  next
    case (Inr c')
    then have c': "c' = c\<lparr>dt_day := min dv d\<rparr>" by (simp add: replaced_def split: if_splits)
    have "fix_day dv ds c' = c'\<lparr>dt_day := dt_day (fix_day dv ds c')\<rparr>" by (rule Cons.IH)
    then have "fix_day dv ds c' = c\<lparr>dt_day := dt_day (fix_day dv ds c')\<rparr>"
      using c' by simp
    then show ?thesis using Inr by simp
  qed
qed

text \<open>
  While the clamped day of the current month is still ahead, it is the next run.
\<close>

lemma monthly_within_month:
  assumes en: "enabled s" and kind: "sched_type s = ''monthly''" and ok: "fields_ok now"
    and tm: "0 \<le> fst (sched_time s)" "fst (sched_time s) \<le> 23"
            "0 \<le> snd (sched_time s)" "snd (sched_time s) \<le> 59"
    and dv: "1 \<le> sched_dom s"
    and c: "c = now\<lparr>dt_day := min (sched_dom s) (days_in_month (dt_year now) (dt_month now)),
                      dt_hour := fst (sched_time s), dt_minute := snd (sched_time s),
                      dt_second := 0, dt_microsecond := 0\<rparr>"
    and later: "\<not> dt_le c now"
  shows "next_run_from_now s now = Some (Inr (Some c))"
proof -
  let ?c0 = "now\<lparr>dt_day := min (sched_dom s) 28, dt_hour := fst (sched_time s),
                  dt_minute := snd (sched_time s), dt_second := 0, dt_microsecond := 0\<rparr>"
  have L: "28 \<le> days_in_month (dt_year now) (dt_month now)"
    using month_length [of "dt_year now" "dt_month now"] by simp
  have ok0: "fields_ok ?c0" using ok tm dv L by (simp add: fields_ok_def)
  then have rep: "replaced ?c0 = Inr ?c0" by (simp add: replaced_def)
  have "dt_day (fix_day (sched_dom s) [28, 29, 30, 31] ?c0)
          = min (sched_dom s) (days_in_month (dt_year ?c0) (dt_month ?c0))"
    by (rule fix_day_clamps [OF ok0 dv]) simp
  then have "fix_day (sched_dom s) [28, 29, 30, 31] ?c0 = c"
    using fix_day_only_day [of "sched_dom s" "[28, 29, 30, 31]" ?c0] c by simp
  then show ?thesis
    using en kind rep later by (simp add: next_run_from_now_def Let_def)
qed


text \<open>
  Once it is past, the month is replaced while the day is still the one of the current
  month: when the following month is shorter than that day the call raises, otherwise the
  next run is the clamped day of the following month.
\<close>

lemma monthly_rollover:
  assumes en: "enabled s" and kind: "sched_type s = ''monthly''" and ok: "fields_ok now"
    and tm: "0 \<le> fst (sched_time s)" "fst (sched_time s) \<le> 23"
            "0 \<le> snd (sched_time s)" "snd (sched_time s) \<le> 59"
    and dv: "1 \<le> sched_dom s"
    and c: "c = now\<lparr>dt_day := min (sched_dom s) (days_in_month (dt_year now) (dt_month now)),
                      dt_hour := fst (sched_time s), dt_minute := snd (sched_time s),
                      dt_second := 0, dt_microsecond := 0\<rparr>"
    and past: "dt_le c now"
    and y2: "y2 = (if dt_month now = 12 then dt_year now + 1 else dt_year now)"
    and m2: "m2 = (if dt_month now = 12 then 1 else dt_month now + 1)"
  shows "next_run_from_now s now =
           (if dt_day c \<le> days_in_month y2 m2
            then Some (Inr (Some (c\<lparr>dt_year := y2, dt_month := m2,
                                     dt_day := min (sched_dom s) (days_in_month y2 m2)\<rparr>)))
            else Some (Inl ValueError))"
proof -
  let ?c0 = "now\<lparr>dt_day := min (sched_dom s) 28, dt_hour := fst (sched_time s),
                  dt_minute := snd (sched_time s), dt_second := 0, dt_microsecond := 0\<rparr>"
  let ?days = "[28, 29, 30, 31] :: int list"
  have L: "28 \<le> days_in_month (dt_year now) (dt_month now)"
    using month_length [of "dt_year now" "dt_month now"] by simp
  have L2: "28 \<le> days_in_month y2 m2" using month_length [of y2 m2] by simp
  have ok0: "fields_ok ?c0" using ok tm dv L by (simp add: fields_ok_def)
  then have rep: "replaced ?c0 = Inr ?c0" by (simp add: replaced_def)
  have "dt_day (fix_day (sched_dom s) ?days ?c0)
          = min (sched_dom s) (days_in_month (dt_year ?c0) (dt_month ?c0))"
    by (rule fix_day_clamps [OF ok0 dv]) simp
  then have cand: "fix_day (sched_dom s) ?days ?c0 = c"
    using fix_day_only_day [of "sched_dom s" ?days ?c0] c by simp
  have run: "next_run_from_now s now =
      (case replaced (c\<lparr>dt_year := y2, dt_month := m2\<rparr>) of
         Inl e \<Rightarrow> Some (Inl e)
       | Inr cand2 \<Rightarrow> Some (Inr (Some (fix_day (sched_dom s) ?days cand2))))"
    using en kind rep past cand y2 m2 by (simp add: next_run_from_now_def Let_def)
  have m2ok: "1 \<le> m2" "m2 \<le> 12" using ok m2 by (simp_all add: fields_ok_def)
  have day1: "1 \<le> dt_day c" using c dv L by simp
  show ?thesis
  proof (cases "dt_day c \<le> days_in_month y2 m2")
    case False
    then have "\<not> fields_ok (c\<lparr>dt_year := y2, dt_month := m2\<rparr>)"
      by (simp add: fields_ok_def)
    then show ?thesis using run False by (simp add: replaced_def)
  next
    case True
    let ?c1 = "c\<lparr>dt_year := y2, dt_month := m2\<rparr>"
    have ok1: "fields_ok ?c1" using c tm m2ok day1 True by (simp add: fields_ok_def)
    then have rep1: "replaced ?c1 = Inr ?c1" by (simp add: replaced_def)
    have d28: "min (sched_dom s) 28 \<le> dt_day c" using c L by simp
    have s28: "fix_day (sched_dom s) ?days ?c1
                 = fix_day (sched_dom s) [29, 30, 31] (?c1\<lparr>dt_day := min (sched_dom s) 28\<rparr>)"
      using try_day [OF ok1, of "min (sched_dom s) 28"] dv L2 by (simp add: min_def)
    let ?c2 = "?c1\<lparr>dt_day := min (sched_dom s) 28\<rparr>"
    have ok2: "fields_ok ?c2" using try_day_ok [OF ok1, of "min (sched_dom s) 28"] dv L2 by simp
    have "fix_day (sched_dom s) ?days ?c2 = fix_day (sched_dom s) [29, 30, 31] ?c2"
      using try_day [OF ok2, of "min (sched_dom s) 28"] dv L2 by (simp add: min_def)
    then have same: "fix_day (sched_dom s) ?days ?c1 = fix_day (sched_dom s) ?days ?c2"
      using s28 by simp
    have "dt_day (fix_day (sched_dom s) ?days ?c2)
            = min (sched_dom s) (days_in_month (dt_year ?c2) (dt_month ?c2))"
      by (rule fix_day_clamps [OF ok2 dv]) simp
    then have "fix_day (sched_dom s) ?days ?c2
                 = c\<lparr>dt_year := y2, dt_month := m2,
                      dt_day := min (sched_dom s) (days_in_month y2 m2)\<rparr>"
      using fix_day_only_day [of "sched_dom s" ?days ?c2] by simp
    then show ?thesis using run rep1 same True by simp
  qed
qed

text \<open>
  Day 31 asked on 10 April: the 30th of April. Every 3 days at 09:00 asked on day 1 at
  10:00: day 4 at 09:00.
\<close>

lemma monthly_clamped_within_month:
  "next_run_from_now
     \<lparr>enabled = True, sched_type = ''monthly'', n_days = 3, weekday = 0, sched_dom = 31,
      sched_time = (9, 0)\<rparr>
     \<lparr>dt_year = 2025, dt_month = 4, dt_day = 10, dt_hour = 10, dt_minute = 0, dt_second = 0,
      dt_microsecond = 0\<rparr>
   = Some (Inr (Some \<lparr>dt_year = 2025, dt_month = 4, dt_day = 30, dt_hour = 9, dt_minute = 0,
                       dt_second = 0, dt_microsecond = 0\<rparr>))"
  by (simp add: next_run_from_now_def dt_defs)

lemma every_three_days_scenario:
  "next_run_from_now
     \<lparr>enabled = True, sched_type = ''every_n_days'', n_days = 3, weekday = 0, sched_dom = 1,
      sched_time = (9, 0)\<rparr>
     \<lparr>dt_year = 2025, dt_month = 4, dt_day = 1, dt_hour = 10, dt_minute = 0, dt_second = 0,
      dt_microsecond = 0\<rparr>
   = Some (Inr (Some \<lparr>dt_year = 2025, dt_month = 4, dt_day = 4, dt_hour = 9, dt_minute = 0,
                       dt_second = 0, dt_microsecond = 0\<rparr>))"
  by code_simp

text \<open>
  The stored cycle of bot3.0.py over three selections, five members and two picks: after
  two selections member 5 is left, and the third takes it and the front of the fresh
  shuffle.
\<close>

lemma three_selections:
  "select_ids 2 [1, 2, 3, 4, 5] [1, 2, 3, 4, 5] [2, 1, 4, 3, 5] [] 0
     = ([1, 2], [1, 2, 3, 4, 5], 2)
   \<and> select_ids 2 [1, 2, 3, 4, 5] [3, 2, 1, 5, 4] [2, 1, 4, 3, 5] [1, 2, 3, 4, 5] 2
     = ([3, 4], [3, 4, 5], 2)
   \<and> select_ids 2 [1, 2, 3, 4, 5] [3, 2, 1, 5, 4] [5, 1, 2, 3, 4] [3, 4, 5] 2
     = ([5, 5], [1, 2, 3, 4], 0)"
  by (simp add: Let_def cycle_defs)

end
